theory Spec2Isabelle
  imports Main
begin

section \<open>Strings of the summary parser\<close>

text \<open>
  The service works on JavaScript strings. A string is modelled as a \<^typ>\<open>string\<close>, one
  \<^typ>\<open>char\<close> per code unit, for code units in the range 0..255 (Latin-1). On this range
  the class \<^verbatim>\<open>\s\<close> of a regular expression and the characters removed by
  \<^verbatim>\<open>String.prototype.trim\<close> are the same seven characters: tab, line feed, vertical
  tab, form feed, carriage return, space and no-break space. The class \<^verbatim>\<open>\w\<close> is
  \<^verbatim>\<open>[A-Za-z0-9_]\<close>.
\<close>

definition is_space :: "char \<Rightarrow> bool" where
  "is_space c \<longleftrightarrow>
     c \<in> set [CHR 0x09, CHR 0x0A, CHR 0x0B, CHR 0x0C, CHR 0x0D, CHR 0x20, CHR 0xA0]"

definition is_word :: "char \<Rightarrow> bool" where
  "is_word c \<longleftrightarrow>
     c \<in> set (''abcdefghijklmnopqrstuvwxyz'' @ ''ABCDEFGHIJKLMNOPQRSTUVWXYZ'' @ ''0123456789_'')"

text \<open>
  \<^verbatim>\<open>toLowerCase\<close> on Latin-1: the letters A-Z and the accented capitals 0xC0-0xDE
  (without the multiplication sign 0xD7) move up by 32; everything else stays.
\<close>

definition lower_char :: "char \<Rightarrow> char" where
  "lower_char c =
     (let n = (of_char c :: nat)
      in if (65 \<le> n \<and> n \<le> 90) \<or> (192 \<le> n \<and> n \<le> 222 \<and> n \<noteq> 215)
         then char_of (n + 32) else c)"

definition toLowerCase :: "string \<Rightarrow> string" where
  "toLowerCase s = map lower_char s"

text \<open>
  Under the flag \<^verbatim>\<open>i\<close> (without \<^verbatim>\<open>u\<close>) a pattern character and an input
  character match when their canonical forms are equal; the canonical form is the upper-case
  form when that is a single code unit. The two Latin-1 letters whose upper-case form lies
  outside Latin-1 (0xB5 and 0xFF) and the sharp s (0xDF) stay as they are here: each of them
  is the only Latin-1 character with its canonical form.
\<close>

definition canonicalize :: "char \<Rightarrow> char" where
  "canonicalize c =
     (let n = (of_char c :: nat)
      in if (97 \<le> n \<and> n \<le> 122) \<or> (224 \<le> n \<and> n \<le> 254 \<and> n \<noteq> 247)
         then char_of (n - 32) else c)"

definition trim :: "string \<Rightarrow> string" where
  "trim s = rev (dropWhile is_space (rev (dropWhile is_space s)))"

text \<open>\<^verbatim>\<open>s.includes(sub)\<close>: \<open>sub\<close> occurs in \<open>s\<close> as a contiguous substring.\<close>

fun includes_str :: "string \<Rightarrow> string \<Rightarrow> bool" where
  "includes_str [] sub = (sub = [])"
| "includes_str (x # xs) sub = (take (length sub) (x # xs) = sub \<or> includes_str xs sub)"

section \<open>Backtracking regular expressions\<close>

text \<open>
  The two regular expressions of the parser are sequences of items: a character class taken
  once, optionally (\<^verbatim>\<open>?\<close>), greedily many times (\<^verbatim>\<open>*\<close>, \<^verbatim>\<open>+\<close>) or lazily many
  times (\<^verbatim>\<open>*?\<close>), the parentheses of a capture group, and a positive lookahead over
  alternatives that are a literal or the end of the input. \<open>bt\<close> is the backtracking
  matcher of ECMAScript on such a sequence: a greedy item first tries to take one more
  character and falls back to the rest of the pattern when that fails, a lazy item first
  tries the rest of the pattern. It returns the captures and the input left after the match.
  The argument \<open>st\<close> is the input at the last opening parenthesis.
\<close>

datatype look = AtLit string | AtEnd

fun look_ok :: "look \<Rightarrow> string \<Rightarrow> bool" where
  "look_ok (AtLit l) s = (take (length l) s = l)"
| "look_ok AtEnd s = (s = [])"

datatype item =
    Chr "char \<Rightarrow> bool"
  | Opt "char \<Rightarrow> bool"
  | Star "char \<Rightarrow> bool"
  | Plus "char \<Rightarrow> bool"
  | Lazy "char \<Rightarrow> bool"
  | Open
  | Close
  | Ahead "look list"

fun bt :: "item list \<Rightarrow> string \<Rightarrow> string \<Rightarrow> string list \<Rightarrow> (string list \<times> string) option" where
  "bt [] s st cs = Some (cs, s)"
| "bt (Chr P # k) [] st cs = None"
| "bt (Chr P # k) (x # xs) st cs = (if P x then bt k xs st cs else None)"
| "bt (Opt P # k) [] st cs = bt k [] st cs"
| "bt (Opt P # k) (x # xs) st cs =
     (if P x
      then (case bt k xs st cs of Some r \<Rightarrow> Some r | None \<Rightarrow> bt k (x # xs) st cs)
      else bt k (x # xs) st cs)"
| "bt (Star P # k) [] st cs = bt k [] st cs"
| "bt (Star P # k) (x # xs) st cs =
     (if P x
      then (case bt (Star P # k) xs st cs of Some r \<Rightarrow> Some r | None \<Rightarrow> bt k (x # xs) st cs)
      else bt k (x # xs) st cs)"
| "bt (Plus P # k) [] st cs = None"
| "bt (Plus P # k) (x # xs) st cs = (if P x then bt (Star P # k) xs st cs else None)"
| "bt (Lazy P # k) [] st cs = bt k [] st cs"
| "bt (Lazy P # k) (x # xs) st cs =
     (case bt k (x # xs) st cs of
        Some r \<Rightarrow> Some r
      | None \<Rightarrow> if P x then bt (Lazy P # k) xs st cs else None)"
| "bt (Open # k) s st cs = bt k s s cs"
| "bt (Close # k) s st cs = bt k s st (cs @ [take (length st - length s) st])"
| "bt (Ahead alts # k) s st cs =
     (if list_ex (\<lambda>a. look_ok a s) alts then bt k s st cs else None)"

text \<open>
  \<^verbatim>\<open>RegExp.prototype.exec\<close> tries the start positions from left to right, the end of
  the input included, and stops at the first one where the pattern matches. The argument is
  the input from \<^verbatim>\<open>lastIndex\<close> on; the second component of the result is the input
  from the new \<^verbatim>\<open>lastIndex\<close> on (neither pattern looks to the left of its match).
\<close>

fun exec :: "item list \<Rightarrow> string \<Rightarrow> (string list \<times> string) option" where
  "exec re [] = bt re [] [] []"
| "exec re (x # xs) =
     (case bt re (x # xs) (x # xs) [] of Some r \<Rightarrow> Some r | None \<Rightarrow> exec re xs)"

definition lit :: "char \<Rightarrow> char \<Rightarrow> bool" where
  "lit c x \<longleftrightarrow> x = c"

definition lit_i :: "char \<Rightarrow> char \<Rightarrow> bool" where
  "lit_i c x \<longleftrightarrow> canonicalize x = canonicalize c"

definition none_of :: "string \<Rightarrow> char \<Rightarrow> bool" where
  "none_of cs x \<longleftrightarrow> x \<notin> set cs"

definition any_char :: "char \<Rightarrow> bool" where
  "any_char x \<longleftrightarrow> True"

text \<open>\<^verbatim>\<open>/## Suggested Tickets\s*\n([\s\S]*?)(?=\n## |$)/i\<close>\<close>

definition ticketSectionRegex :: "item list" where
  "ticketSectionRegex =
     map (\<lambda>c. Chr (lit_i c)) ''## Suggested Tickets'' @
     [Star is_space, Chr (lit CHR 0x0A), Open, Lazy any_char, Close,
      Ahead [AtLit [CHR 0x0A, CHR ''#'', CHR ''#'', CHR '' ''], AtEnd]]"

text \<open>\<^verbatim>\<open>/\|\s*\*?\*?([^|*]+)\*?\*?\s*\|\s*([^|]+)\s*\|\s*(\w+)\s*\|/g\<close>\<close>

definition tableRowRegex :: "item list" where
  "tableRowRegex =
     [Chr (lit CHR ''|''), Star is_space, Opt (lit CHR ''*''), Opt (lit CHR ''*''),
      Open, Plus (none_of ''|*''), Close,
      Opt (lit CHR ''*''), Opt (lit CHR ''*''), Star is_space, Chr (lit CHR ''|''),
      Star is_space, Open, Plus (none_of ''|''), Close, Star is_space, Chr (lit CHR ''|''),
      Star is_space, Open, Plus is_word, Close, Star is_space, Chr (lit CHR ''|'')]"

section \<open>The summary parser\<close>

text \<open>
  \<^verbatim>\<open>Partial<CreateIssueRequest>\<close>: every field of a create request, each optional.
  Priorities and statuses are string literal types, that is strings at run time.
\<close>

record PartialCreateIssueRequest =
  p_board_id :: "int option"
  p_title :: "string option"
  p_description :: "string option"
  p_status :: "string option"
  p_priority :: "string option"
  p_assignee_id :: "int option"
  p_reporter_id :: "int option"
  p_due_date :: "string option"
  p_estimated_hours :: "int option"
  p_label_ids :: "int list option"

definition validPriorities :: "string list" where
  "validPriorities = [''urgent'', ''high'', ''medium'', ''low'', ''none'']"

text \<open>The test of the \<^verbatim>\<open>continue\<close> in the loop ("Skip header row").\<close>

definition is_header_row :: "string \<Rightarrow> bool" where
  "is_header_row title \<longleftrightarrow>
     includes_str (toLowerCase title) ''title'' \<or> includes_str title ''---''"

text \<open>The object pushed for a row that is kept.\<close>

definition makeTicket :: "string \<Rightarrow> string \<Rightarrow> string \<Rightarrow> PartialCreateIssueRequest" where
  "makeTicket title description priority =
     (let normalizedPriority = toLowerCase (trim priority)
      in \<lparr> p_board_id = None,
           p_title = Some (trim title),
           p_description = Some (trim description),
           p_status = Some ''backlog'',
           p_priority = Some (if normalizedPriority \<in> set validPriorities
                              then normalizedPriority else ''medium''),
           p_assignee_id = None, p_reporter_id = None, p_due_date = None,
           p_estimated_hours = None, p_label_ids = None \<rparr>)"

text \<open>A match leaves a suffix of the input; a match of the row pattern is not empty.\<close>

lemma bt_suffix:
  "bt k s st cs = Some (cs', r) \<Longrightarrow> \<exists>w. s = w @ r"
proof (induction k s st cs rule: bt.induct)
  case (5 P k x xs st cs)
  then show ?case by (fastforce split: if_splits option.splits)
next
  case (7 P k x xs st cs)
  then show ?case by (fastforce split: if_splits option.splits)
next
  case (11 P k x xs st cs)
  then show ?case by (fastforce split: if_splits option.splits)
qed (fastforce split: if_splits option.splits)+

lemma exec_suffix:
  "exec re s = Some (cs', r) \<Longrightarrow> \<exists>w. s = w @ r"
proof (induction re s rule: exec.induct)
  case (1 re)
  then show ?case using bt_suffix by fastforce
next
  case (2 re x xs)
  show ?case
  proof (cases "bt re (x # xs) (x # xs) []")
    case None
    with 2 obtain w where "xs = w @ r" by auto
    then have "x # xs = (x # w) @ r" by simp
    then show ?thesis by blast
  next
    case (Some a)
    with 2 show ?thesis using bt_suffix by fastforce
  qed
qed

lemma exec_row_shorter:
  assumes "exec tableRowRegex s = Some (cs', r)"
  shows "length r < length s"
  using assms
proof (induction s)
  case Nil
  then show ?case by (simp add: tableRowRegex_def)
next
  case (Cons x xs)
  show ?case
  proof (cases "bt tableRowRegex (x # xs) (x # xs) []")
    case None
    with Cons show ?thesis by auto
  next
    case (Some a)
    with Cons.prems have a: "bt tableRowRegex (x # xs) (x # xs) [] = Some (cs', r)" by simp
    then obtain k where "bt k xs (x # xs) [] = Some (cs', r)"
      by (auto simp: tableRowRegex_def split: if_splits)
    then obtain w where "xs = w @ r" using bt_suffix by blast
    then show ?thesis by simp
  qed
qed

text \<open>
  The \<^verbatim>\<open>while ((match = tableRowRegex.exec(ticketSection)) !== null)\<close> loop, with the
  array \<^verbatim>\<open>tickets\<close> as accumulator. The pattern has three groups, so a match always
  carries three captures; the last case is never taken.
\<close>

function tableRowLoop ::
  "string \<Rightarrow> PartialCreateIssueRequest list \<Rightarrow> PartialCreateIssueRequest list" where
  "tableRowLoop s tickets =
     (case exec tableRowRegex s of
        None \<Rightarrow> tickets
      | Some (m, rest) \<Rightarrow>
          (case m of
             [title, description, priority] \<Rightarrow>
               if is_header_row title then tableRowLoop rest tickets
               else tableRowLoop rest (tickets @ [makeTicket title description priority])
           | _ \<Rightarrow> tickets))"
  by pat_completeness auto
termination
  by (relation "measure (\<lambda>(s, tickets). length s)") (auto dest: exec_row_shorter)

declare tableRowLoop.simps [simp del]

definition parseTicketsFromSummary :: "string \<Rightarrow> PartialCreateIssueRequest list" where
  "parseTicketsFromSummary summaryMarkdown =
     (case exec ticketSectionRegex summaryMarkdown of
        None \<Rightarrow> []
      | Some (m, rest) \<Rightarrow>
          (case m of
             [ticketSection] \<Rightarrow> tableRowLoop ticketSection []
           | _ \<Rightarrow> []))"

section \<open>Tables, rows and the tickets of the specification\<close>

text \<open>
  What the group of a title or description cell captures: the cell without its leading white
  space, or the last character of a cell that is blank.
\<close>

definition cell_capture :: "string \<Rightarrow> string" where
  "cell_capture cell = (if dropWhile is_space cell = [] then [last cell] else dropWhile is_space cell)"

text \<open>
  A table as the specification describes it: a row is the text of its three cells, written
  \<^verbatim>\<open>|title|description|priority|\<close>, and every row stands on a line of its own.
\<close>

definition render_row :: "string \<times> string \<times> string \<Rightarrow> string" where
  "render_row r = (case r of (t, d, p) \<Rightarrow> ''|'' @ t @ ''|'' @ d @ ''|'' @ p @ ''|'')"

text \<open>
  A title cell in bold, \<^verbatim>\<open>**title**\<close> with white space around it or not, and the text of a
  title cell: what stands between the bold markers, or the whole cell when it has no asterisk.
\<close>

definition starts_with :: "string \<Rightarrow> string \<Rightarrow> bool" where
  "starts_with p s \<longleftrightarrow> take (length p) s = p"

definition title_inner :: "string \<Rightarrow> string" where
  "title_inner s = take (length s - 4) (drop 2 s)"

definition bold_title :: "string \<Rightarrow> bool" where
  "bold_title t \<longleftrightarrow>
     (let s = trim t
      in starts_with ''**'' s \<and> starts_with ''**'' (rev s) \<and> 4 < length s \<and>
         (\<forall>c\<in>set (title_inner s). c \<noteq> CHR ''*''))"

definition title_text :: "string \<Rightarrow> string" where
  "title_text t = (if CHR ''*'' \<in> set t then title_inner (trim t) else t)"

text \<open>What the group of the title cell captures.\<close>

definition title_capture :: "string \<Rightarrow> string" where
  "title_capture t = (if CHR ''*'' \<in> set t then title_inner (trim t) else cell_capture t)"

text \<open>
  A valid row: a title and a description that are not empty, no cell reaches over a bar or a
  line break, a title with an asterisk is a title in bold, and the priority cell is one word of
  letters, digits and underscores, with white space around it or not.
\<close>

definition valid_row :: "string \<times> string \<times> string \<Rightarrow> bool" where
  "valid_row r \<longleftrightarrow>
     (case r of (t, d, p) \<Rightarrow>
        t \<noteq> [] \<and> (\<forall>c\<in>set t. c \<notin> set [CHR ''|'', CHR 0x0A]) \<and>
        (CHR ''*'' \<in> set t \<longrightarrow> bold_title t) \<and>
        d \<noteq> [] \<and> (\<forall>c\<in>set d. c \<notin> set [CHR ''|'', CHR 0x0A]) \<and>
        (\<forall>c\<in>set p. c \<noteq> CHR 0x0A) \<and>
        trim p \<noteq> [] \<and> (\<forall>c\<in>set (trim p). is_word c))"

text \<open>
  The tickets the specification asks for, from the rows of the table: one per row that is not
  a header row, in row order, the text of the title and the description trimmed, the priority
  lower-cased and replaced by \<^verbatim>\<open>medium\<close> when it is not one of the five priorities,
  the status \<^verbatim>\<open>backlog\<close>.
\<close>

definition spec_tickets :: "(string \<times> string \<times> string) list \<Rightarrow> PartialCreateIssueRequest list" where
  "spec_tickets rows =
     map (\<lambda>(t, d, p).
            \<lparr> p_board_id = None, p_title = Some (trim (title_text t)), p_description = Some (trim d),
              p_status = Some ''backlog'',
              p_priority = Some (if toLowerCase (trim p) \<in> {''urgent'', ''high'', ''medium'', ''low'', ''none''}
                                 then toLowerCase (trim p) else ''medium''),
              p_assignee_id = None, p_reporter_id = None, p_due_date = None,
              p_estimated_hours = None, p_label_ids = None \<rparr>)
         (filter (\<lambda>(t, d, p). \<not> (includes_str (toLowerCase (title_text t)) ''title'' \<or>
                                includes_str (title_text t) ''---'')) rows)"

definition render_table :: "(string \<times> string \<times> string) list \<Rightarrow> string" where
  "render_table rows = concat (map (\<lambda>r. CHR 0x0A # render_row r) rows)"

text \<open>
  No occurrence of the heading, in any letter case, starts inside \<open>pre\<close>, also when the
  heading follows \<open>pre\<close>.
\<close>

definition heading_free :: "string \<Rightarrow> bool" where
  "heading_free pre \<longleftrightarrow>
     \<not> includes_str (toLowerCase (pre @ ''## Suggested Ticket'')) ''## suggested tickets''"

text \<open>The alternatives of the lookahead that ends the section.\<close>

definition section_end :: "look list" where
  "section_end = [AtLit [CHR 0x0A, CHR ''#'', CHR ''#'', CHR '' ''], AtEnd]"

text \<open>
  The matches that the loop over \<^verbatim>\<open>tableRowRegex.exec\<close> sees, one after the other, and
  the section it runs on.
\<close>

function tableRowMatches :: "string \<Rightarrow> (string \<times> string \<times> string) list" where
  "tableRowMatches s =
     (case exec tableRowRegex s of
        None \<Rightarrow> []
      | Some (m, rest) \<Rightarrow>
          (case m of
             [title, description, priority] \<Rightarrow> (title, description, priority) # tableRowMatches rest
           | _ \<Rightarrow> []))"
  by pat_completeness auto
termination
  by (relation "measure length") (auto dest: exec_row_shorter)

declare tableRowMatches.simps [simp del]

definition ticketSection :: "string \<Rightarrow> string option" where
  "ticketSection summaryMarkdown =
     (case exec ticketSectionRegex summaryMarkdown of
        None \<Rightarrow> None
      | Some (m, rest) \<Rightarrow> (case m of [section] \<Rightarrow> Some section | _ \<Rightarrow> None))"

text \<open>The matches that are not taken for a header or separator row.\<close>

definition kept_rows :: "(string \<times> string \<times> string) list \<Rightarrow> (string \<times> string \<times> string) list" where
  "kept_rows ms =
     filter (\<lambda>(title, description, priority).
               \<not> (includes_str (toLowerCase title) ''title'' \<or> includes_str title ''---'')) ms"

text \<open>
  A row, on one line and with no bar inside a cell, whose priority cell is not a single word
  of letters, digits and underscores.
\<close>

definition bad_priority_row :: "string \<times> string \<times> string \<Rightarrow> bool" where
  "bad_priority_row r \<longleftrightarrow>
     (case r of (t, d, p) \<Rightarrow>
        (\<forall>c\<in>set (t @ d @ p). c \<notin> set [CHR ''|'', CHR 0x0A]) \<and>
        \<not> (trim p \<noteq> [] \<and> (\<forall>c\<in>set (trim p). is_word c)))"

text \<open>
  A cell that is one word of letters, digits and underscores, with white space around it or
  not: what the third group of the row pattern and the white space around it can match.
\<close>

definition one_word :: "string \<Rightarrow> bool" where
  "one_word cell \<longleftrightarrow> trim cell \<noteq> [] \<and> (\<forall>c\<in>set (trim cell). is_word c)"

text \<open>
  In the table, the row after a row that the pattern cannot match has a title cell and a
  description cell that are not single words.
\<close>

fun well_separated :: "(string \<times> string \<times> string) list \<Rightarrow> bool" where
  "well_separated (r # r' # rows) =
     ((bad_priority_row r \<longrightarrow> (case r' of (t, d, p) \<Rightarrow> \<not> one_word t \<and> \<not> one_word d)) \<and>
      well_separated (r' # rows))"
| "well_separated rows = True"

text \<open>Example tables.\<close>

definition example_rows :: "(string \<times> string \<times> string) list" where
  "example_rows =
     [('' Title '', '' Description '', '' Priority ''),
      (''---'', ''---'', ''---''),
      ('' **Fix login** '', '' Users cannot log in '', '' HIGH ''),
      ('' Add docs '', '' '', '' someday '')]"

section \<open>The row pattern on a valid row\<close>

lemma lower_canonicalize: "lower_char (canonicalize x) = lower_char x"
proof -
  have b: "(of_char x :: nat) < 2 ^ 8" by simp
  have c: "char_of (of_char x :: nat) = x" by simp
  show ?thesis
    unfolding lower_char_def canonicalize_def Let_def
    using b c by (auto simp: of_char_of char_of_eq_iff take_bit_nat_eq_self)
qed

lemma lit_i_lower: "lit_i c x \<Longrightarrow> lower_char x = lower_char c"
  unfolding lit_i_def using lower_canonicalize by metis

lemma includes_str_iff:
  "includes_str s sub \<longleftrightarrow> (\<exists>i\<le>length s. take (length sub) (drop i s) = sub)"
proof (induction s)
  case Nil
  then show ?case by auto
next
  case (Cons x xs)
  show ?case
  proof
    assume "includes_str (x # xs) sub"
    then consider "take (length sub) (x # xs) = sub" | "includes_str xs sub" by auto
    then show "\<exists>i\<le>length (x # xs). take (length sub) (drop i (x # xs)) = sub"
    proof cases
      case 1
      then have "take (length sub) (drop 0 (x # xs)) = sub" by simp
      then show ?thesis by blast
    next
      case 2
      with Cons obtain i where "i \<le> length xs" "take (length sub) (drop i xs) = sub" by auto
      then have "Suc i \<le> length (x # xs) \<and> take (length sub) (drop (Suc i) (x # xs)) = sub" by simp
      then show ?thesis by blast
    qed
  next
    assume "\<exists>i\<le>length (x # xs). take (length sub) (drop i (x # xs)) = sub"
    then obtain i where i: "i \<le> length (x # xs)" "take (length sub) (drop i (x # xs)) = sub" by blast
    show "includes_str (x # xs) sub"
    proof (cases i)
      case 0
      with i show ?thesis by simp
    next
      case (Suc j)
      with i have "j \<le> length xs \<and> take (length sub) (drop j xs) = sub" by simp
      with Cons show ?thesis by auto
    qed
  qed
qed

lemma bt_literal_prefix:
  "bt (map (\<lambda>c. Chr (lit_i c)) h @ k) s st cs = Some r
   \<Longrightarrow> toLowerCase (take (length h) s) = toLowerCase h"
proof (induction h arbitrary: s)
  case Nil
  then show ?case by (simp add: toLowerCase_def)
next
  case (Cons c h)
  then obtain x xs where s: "s = x # xs" by (cases s) auto
  with Cons.prems have "lit_i c x" and "bt (map (\<lambda>c. Chr (lit_i c)) h @ k) xs st cs = Some r"
    by (auto split: if_splits)
  with Cons.IH [of xs] lit_i_lower show ?case by (simp add: s toLowerCase_def)
qed

lemma exec_None:
  "(\<And>i. i \<le> length s \<Longrightarrow> bt re (drop i s) (drop i s) [] = None) \<Longrightarrow> exec re s = None"
proof (induction s)
  case Nil
  from Nil [of 0] show ?case by simp
next
  case (Cons x xs)
  from Cons.prems [of 0] have a: "bt re (x # xs) (x # xs) [] = None" by simp
  have "exec re xs = None"
  proof (rule Cons.IH)
    fix i assume "i \<le> length xs"
    with Cons.prems [of "Suc i"] show "bt re (drop i xs) (drop i xs) [] = None" by simp
  qed
  with a show ?case by simp
qed

lemma section_needs_heading:
  assumes "\<not> includes_str (toLowerCase s) ''## suggested tickets''"
  shows "exec ticketSectionRegex s = None"
proof (rule exec_None)
  fix i assume i: "i \<le> length s"
  show "bt ticketSectionRegex (drop i s) (drop i s) [] = None"
  proof (rule ccontr)
    assume "bt ticketSectionRegex (drop i s) (drop i s) [] \<noteq> None"
    then obtain r where "bt ticketSectionRegex (drop i s) (drop i s) [] = Some r" by auto
    then have "toLowerCase (take (length ''## Suggested Tickets'') (drop i s)) = toLowerCase ''## Suggested Tickets''"
      unfolding ticketSectionRegex_def by (rule bt_literal_prefix)
    moreover have "toLowerCase ''## Suggested Tickets'' = ''## suggested tickets''"
      by code_simp
    ultimately have "take (length ''## suggested tickets'') (drop i (toLowerCase s)) = ''## suggested tickets''"
      by (simp add: toLowerCase_def take_map drop_map)
    with i have "includes_str (toLowerCase s) ''## suggested tickets''"
      unfolding includes_str_iff by (auto simp: toLowerCase_def)
    with assms show False by simp
  qed
qed

lemma space_facts: "\<not> is_space CHR ''|''" "\<not> is_space CHR ''*''" "is_space CHR 0x0A"
  by (simp_all add: is_space_def)

lemma word_not_space: "is_word c \<Longrightarrow> \<not> is_space c"
  by (auto simp: is_word_def is_space_def)

lemma space_not_word: "is_space c \<Longrightarrow> \<not> is_word c"
  using word_not_space by blast

lemma bar_not_word: "\<not> is_word CHR ''|''"
  by (simp add: is_word_def)

lemma star_skip:
  "\<forall>x\<in>set w. P x \<Longrightarrow> bt (Star P # k) s st cs = Some r \<Longrightarrow> bt (Star P # k) (w @ s) st cs = Some r"
  by (induction w) auto

lemma star_stop:
  "s = [] \<or> \<not> P (hd s) \<Longrightarrow> bt (Star P # k) s st cs = bt k s st cs"
  by (cases s) auto

lemma star_run:
  "\<forall>x\<in>set w. P x \<Longrightarrow> s = [] \<or> \<not> P (hd s) \<Longrightarrow> bt k s st cs = Some r
   \<Longrightarrow> bt (Star P # k) (w @ s) st cs = Some r"
  by (simp add: star_skip star_stop)

lemma plus_run:
  "w \<noteq> [] \<Longrightarrow> \<forall>x\<in>set w. P x \<Longrightarrow> s = [] \<or> \<not> P (hd s) \<Longrightarrow> bt k s st cs = Some r
   \<Longrightarrow> bt (Plus P # k) (w @ s) st cs = Some r"
  by (cases w) (auto simp: star_run)

lemma group_run:
  assumes "w \<noteq> []" and "\<forall>x\<in>set w. P x" and "s = [] \<or> \<not> P (hd s)"
    and "bt k s (w @ s) (cs @ [w]) = Some r"
  shows "bt (Open # Plus P # Close # k) (w @ s) st cs = Some r"
proof -
  have "bt (Close # k) s (w @ s) cs = Some r" using assms(4) by simp
  from plus_run [OF assms(1-3) this] show ?thesis by simp
qed

lemma opt_skip:
  "s = [] \<or> \<not> P (hd s) \<Longrightarrow> bt (Opt P # k) s st cs = bt k s st cs"
  by (cases s) auto

lemma prio_match:
  assumes "\<forall>x\<in>set w1. is_space x" and "\<forall>x\<in>set w2. is_space x" and "q \<noteq> []" and "\<forall>x\<in>set q. is_word x"
  shows "bt [Star is_space, Open, Plus is_word, Close, Star is_space, Chr (lit CHR ''|'')]
           (w1 @ q @ w2 @ CHR ''|'' # R) st cs = Some (cs @ [q], R)"
proof -
  let ?s2 = "w2 @ CHR ''|'' # R"
  have a: "bt [Star is_space, Chr (lit CHR ''|'')] ?s2 (q @ ?s2) (cs @ [q]) = Some (cs @ [q], R)"
    by (rule star_run [OF assms(2)]) (simp_all add: space_facts lit_def)
  have stop: "?s2 = [] \<or> \<not> is_word (hd ?s2)"
    using assms(2) by (cases w2) (auto simp: bar_not_word space_not_word)
  have b: "bt [Open, Plus is_word, Close, Star is_space, Chr (lit CHR ''|'')] (q @ ?s2) st cs = Some (cs @ [q], R)"
    by (rule group_run [OF assms(3,4) stop a])
  have "q @ ?s2 = [] \<or> \<not> is_space (hd (q @ ?s2))"
    using assms(3,4) by (cases q) (auto simp: word_not_space)
  from star_run [OF assms(1) this b] show ?thesis by simp
qed

lemma desc_cell:
  assumes "d \<noteq> []" and "\<forall>x\<in>set d. x \<noteq> CHR ''|''"
    and "\<And>st. bt K (CHR ''|'' # X) st (cs @ [cell_capture d]) = Some r"
  shows "bt (Star is_space # Open # Plus (none_of ''|'') # Close # K) (d @ CHR ''|'' # X) st cs = Some r"
  using assms
proof (induction d rule: list_nonempty_induct)
  case (single c)
  have cc: "cell_capture [c] = [c]" by (simp add: cell_capture_def)
  have g: "bt (Open # Plus (none_of ''|'') # Close # K) ([c] @ CHR ''|'' # X) st cs = Some r"
  proof (rule group_run)
    show "bt K (CHR ''|'' # X) ([c] @ CHR ''|'' # X) (cs @ [[c]]) = Some r"
      using single(2) [of "[c] @ CHR ''|'' # X"] cc by simp
  qed (use single in \<open>simp_all add: none_of_def\<close>)
  show ?case
  proof (cases "is_space c")
    case True
    have "bt (Star is_space # Open # Plus (none_of ''|'') # Close # K) (CHR ''|'' # X) st cs = None"
      by (simp add: space_facts none_of_def)
    with True g show ?thesis by simp
  next
    case False
    with g show ?thesis by simp
  qed
next
  case (cons c d)
  show ?case
  proof (cases "is_space c")
    case True
    then have cc: "cell_capture (c # d) = cell_capture d"
      using cons(1) by (simp add: cell_capture_def)
    have "bt (Star is_space # Open # Plus (none_of ''|'') # Close # K) (d @ CHR ''|'' # X) st cs = Some r"
      using cons cc by simp
    with True show ?thesis by simp
  next
    case False
    then have cc: "cell_capture (c # d) = c # d" by (simp add: cell_capture_def)
    have "bt (Open # Plus (none_of ''|'') # Close # K) ((c # d) @ CHR ''|'' # X) st cs = Some r"
    proof (rule group_run)
      show "bt K (CHR ''|'' # X) ((c # d) @ CHR ''|'' # X) (cs @ [c # d]) = Some r"
        using cons(4) [of "(c # d) @ CHR ''|'' # X"] cc by simp
    qed (use cons in \<open>simp_all add: none_of_def\<close>)
    with False show ?thesis by simp
  qed
qed

lemma title_cell:
  assumes "t \<noteq> []" and "\<forall>x\<in>set t. x \<noteq> CHR ''|'' \<and> x \<noteq> CHR ''*''"
    and "\<And>st. bt K (CHR ''|'' # X) st (cs @ [cell_capture t]) = Some r"
  shows "bt (Star is_space # Opt (lit CHR ''*'') # Opt (lit CHR ''*'') # Open # Plus (none_of ''|*'') # Close # K)
           (t @ CHR ''|'' # X) st cs = Some r"
  using assms
proof (induction t rule: list_nonempty_induct)
  case (single c)
  have cc: "cell_capture [c] = [c]" by (simp add: cell_capture_def)
  have "bt (Open # Plus (none_of ''|*'') # Close # K) ([c] @ CHR ''|'' # X) st cs = Some r"
  proof (rule group_run)
    show "bt K (CHR ''|'' # X) ([c] @ CHR ''|'' # X) (cs @ [[c]]) = Some r"
      using single(2) [of "[c] @ CHR ''|'' # X"] cc by simp
  qed (use single in \<open>simp_all add: none_of_def\<close>)
  then have g: "bt (Opt (lit CHR ''*'') # Opt (lit CHR ''*'') # Open # Plus (none_of ''|*'') # Close # K)
                  (c # CHR ''|'' # X) st cs = Some r"
    using single(1) by (simp add: lit_def)
  show ?case
  proof (cases "is_space c")
    case True
    have "bt (Star is_space # Opt (lit CHR ''*'') # Opt (lit CHR ''*'') # Open # Plus (none_of ''|*'') # Close # K)
            (CHR ''|'' # X) st cs = None"
      by (simp add: space_facts none_of_def lit_def)
    with True g show ?thesis by simp
  next
    case False
    with g show ?thesis by simp
  qed
next
  case (cons c t)
  show ?case
  proof (cases "is_space c")
    case True
    then have cc: "cell_capture (c # t) = cell_capture t"
      using cons(1) by (simp add: cell_capture_def)
    have "bt (Star is_space # Opt (lit CHR ''*'') # Opt (lit CHR ''*'') # Open # Plus (none_of ''|*'') # Close # K)
            (t @ CHR ''|'' # X) st cs = Some r"
      using cons cc by simp
    with True show ?thesis by simp
  next
    case False
    then have cc: "cell_capture (c # t) = c # t" by (simp add: cell_capture_def)
    have "bt (Open # Plus (none_of ''|*'') # Close # K) ((c # t) @ CHR ''|'' # X) st cs = Some r"
    proof (rule group_run)
      show "bt K (CHR ''|'' # X) ((c # t) @ CHR ''|'' # X) (cs @ [c # t]) = Some r"
        using cons(4) [of "(c # t) @ CHR ''|'' # X"] cc by simp
    qed (use cons in \<open>simp_all add: none_of_def\<close>)
    then have "bt (Opt (lit CHR ''*'') # Opt (lit CHR ''*'') # Open # Plus (none_of ''|*'') # Close # K)
                 (c # t @ CHR ''|'' # X) st cs = Some r"
      using cons(3) by (simp add: lit_def)
    with False show ?thesis by simp
  qed
qed

lemma trim_decomp:
  "\<exists>w1 w2. p = w1 @ trim p @ w2 \<and> (\<forall>x\<in>set w1. is_space x) \<and> (\<forall>x\<in>set w2. is_space x)"
proof -
  let ?u = "dropWhile is_space p"
  have "rev (takeWhile is_space (rev ?u) @ dropWhile is_space (rev ?u)) = rev (rev ?u)"
    by (simp only: takeWhile_dropWhile_id)
  then have "rev (dropWhile is_space (rev ?u)) @ rev (takeWhile is_space (rev ?u)) = ?u"
    by (simp only: rev_append rev_rev_ident)
  then have u: "?u = trim p @ rev (takeWhile is_space (rev ?u))" by (simp only: trim_def)
  have "p = takeWhile is_space p @ ?u" by simp
  with u have "p = takeWhile is_space p @ trim p @ rev (takeWhile is_space (rev ?u))" by simp
  moreover have "\<forall>x\<in>set (takeWhile is_space p). is_space x" by (auto dest: set_takeWhileD)
  moreover have "\<forall>x\<in>set (rev (takeWhile is_space (rev ?u))). is_space x" by (auto dest: set_takeWhileD)
  ultimately show ?thesis by blast
qed

lemma opt_take:
  "P x \<Longrightarrow> bt k xs st cs = Some r \<Longrightarrow> bt (Opt P # k) (x # xs) st cs = Some r"
  by simp

lemma bold_decomp:
  assumes "starts_with ''**'' s" and "starts_with ''**'' (rev s)" and "4 < length s"
  shows "s = ''**'' @ title_inner s @ ''**''"
proof -
  have a: "take 2 s = ''**''" using assms(1) by (simp add: starts_with_def numeral_2_eq_2)
  have "take 2 (rev s) = ''**''" using assms(2) by (simp add: starts_with_def numeral_2_eq_2)
  then have "rev (drop (length s - 2) s) = ''**''" by (simp add: take_rev)
  then have "rev (rev (drop (length s - 2) s)) = rev ''**''" by simp
  then have b: "drop (length s - 2) s = ''**''" by simp
  have "drop 2 s = take (length s - 4) (drop 2 s) @ drop (length s - 4) (drop 2 s)"
    by (simp only: append_take_drop_id)
  moreover have "drop (length s - 4) (drop 2 s) = drop (length s - 2) s"
  proof -
    have "length s - 4 + 2 = length s - 2" using assms(3) by arith
    then show ?thesis by (simp only: drop_drop)
  qed
  ultimately have "drop 2 s = title_inner s @ ''**''" using b by (simp only: title_inner_def)
  moreover have "s = take 2 s @ drop 2 s" by simp
  ultimately show ?thesis using a by metis
qed

lemma bold_cell:
  assumes "\<forall>x\<in>set w1. is_space x" and "\<forall>x\<in>set w2. is_space x"
    and "u \<noteq> []" and "\<forall>x\<in>set u. x \<noteq> CHR ''|'' \<and> x \<noteq> CHR ''*''"
    and "\<And>st. bt K X st (cs @ [u]) = Some r"
  shows "bt (Star is_space # Opt (lit CHR ''*'') # Opt (lit CHR ''*'') # Open # Plus (none_of ''|*'') # Close #
             Opt (lit CHR ''*'') # Opt (lit CHR ''*'') # Star is_space # Chr (lit CHR ''|'') # K)
           (w1 @ ''**'' @ u @ ''**'' @ w2 @ CHR ''|'' # X) st cs = Some r"
proof -
  let ?s2 = "''**'' @ w2 @ CHR ''|'' # X"
  have e1: "bt (Star is_space # Chr (lit CHR ''|'') # K) (w2 @ CHR ''|'' # X) st' (cs @ [u]) = Some r" for st'
    by (rule star_run [OF assms(2)]) (simp_all add: space_facts lit_def assms(5))
  have e2: "bt (Opt (lit CHR ''*'') # Opt (lit CHR ''*'') # Star is_space # Chr (lit CHR ''|'') # K) ?s2 st' (cs @ [u]) = Some r" for st'
    using e1 [of st'] by (simp add: lit_def)
  have e3: "bt (Open # Plus (none_of ''|*'') # Close #
             Opt (lit CHR ''*'') # Opt (lit CHR ''*'') # Star is_space # Chr (lit CHR ''|'') # K) (u @ ?s2) st' cs = Some r" for st'
    by (rule group_run [OF assms(3)]) (use assms(4) e2 in \<open>simp_all add: none_of_def\<close>)
  have e4: "bt (Opt (lit CHR ''*'') # Opt (lit CHR ''*'') # Open # Plus (none_of ''|*'') # Close #
             Opt (lit CHR ''*'') # Opt (lit CHR ''*'') # Star is_space # Chr (lit CHR ''|'') # K) (''**'' @ u @ ?s2) st cs = Some r"
    using e3 [of st] by (simp add: lit_def)
  have "bt (Star is_space # Opt (lit CHR ''*'') # Opt (lit CHR ''*'') # Open # Plus (none_of ''|*'') # Close #
             Opt (lit CHR ''*'') # Opt (lit CHR ''*'') # Star is_space # Chr (lit CHR ''|'') # K)
           (w1 @ (''**'' @ u @ ?s2)) st cs = Some r"
    by (rule star_run [OF assms(1) _ e4]) (simp add: space_facts)
  then show ?thesis by simp
qed

lemma title_match:
  assumes "t \<noteq> []" and "\<forall>c\<in>set t. c \<noteq> CHR ''|''" and "CHR ''*'' \<in> set t \<longrightarrow> bold_title t"
    and "\<And>st. bt K X st (cs @ [title_capture t]) = Some r"
  shows "bt (Star is_space # Opt (lit CHR ''*'') # Opt (lit CHR ''*'') # Open # Plus (none_of ''|*'') # Close #
             Opt (lit CHR ''*'') # Opt (lit CHR ''*'') # Star is_space # Chr (lit CHR ''|'') # K)
           (t @ CHR ''|'' # X) st cs = Some r"
proof (cases "CHR ''*'' \<in> set t")
  case False
  then have c: "title_capture t = cell_capture t" by (simp add: title_capture_def)
  show ?thesis
  proof (rule title_cell [OF assms(1)])
    show "\<forall>x\<in>set t. x \<noteq> CHR ''|'' \<and> x \<noteq> CHR ''*''" using assms(2) False by auto
    show "bt (Opt (lit CHR ''*'') # Opt (lit CHR ''*'') # Star is_space # Chr (lit CHR ''|'') # K) (CHR ''|'' # X) st'
            (cs @ [cell_capture t]) = Some r" for st'
      using assms(4) [of st'] c by (simp add: lit_def space_facts)
  qed
next
  case True
  then have c: "title_capture t = title_inner (trim t)" by (simp add: title_capture_def)
  from True assms(3) have b: "starts_with ''**'' (trim t)" "starts_with ''**'' (rev (trim t))" "4 < length (trim t)"
    "\<forall>c\<in>set (title_inner (trim t)). c \<noteq> CHR ''*''"
    by (simp_all add: bold_title_def Let_def)
  define u where "u = title_inner (trim t)"
  have s: "trim t = ''**'' @ u @ ''**''" unfolding u_def by (rule bold_decomp [OF b(1-3)])
  obtain w1 w2 where t: "t = w1 @ trim t @ w2" and w: "\<forall>x\<in>set w1. is_space x" "\<forall>x\<in>set w2. is_space x"
    using trim_decomp by blast
  have t': "t = w1 @ ''**'' @ u @ ''**'' @ w2" using t s by (metis append_assoc)
  have "length u = length (trim t) - 4" unfolding u_def title_inner_def using b(3) by simp
  with b(3) have u1: "u \<noteq> []" by auto
  have "set u \<subseteq> set t" using t' by (metis (no_types, lifting) Un_iff set_append subsetI)
  with assms(2) b(4) have u2: "\<forall>x\<in>set u. x \<noteq> CHR ''|'' \<and> x \<noteq> CHR ''*''" unfolding u_def by blast
  have eq: "t @ CHR ''|'' # X = w1 @ ''**'' @ u @ ''**'' @ w2 @ CHR ''|'' # X"
    using t' by (metis append_assoc)
  show ?thesis unfolding eq
    by (rule bold_cell [OF w u1 u2]) (use assms(4) c u_def in simp)
qed

lemma row_match:
  assumes "valid_row (t, d, p)"
  shows "bt tableRowRegex (render_row (t, d, p) @ R) st [] = Some ([title_capture t, cell_capture d, trim p], R)"
proof -
  from assms have t: "t \<noteq> []" "\<forall>c\<in>set t. c \<noteq> CHR ''|''" "CHR ''*'' \<in> set t \<longrightarrow> bold_title t"
    and d: "d \<noteq> []" "\<forall>x\<in>set d. x \<noteq> CHR ''|''"
    and q: "trim p \<noteq> []" "\<forall>x\<in>set (trim p). is_word x"
    by (auto simp: valid_row_def)
  obtain w1 w2 where p: "p = w1 @ trim p @ w2" and w: "\<forall>x\<in>set w1. is_space x" "\<forall>x\<in>set w2. is_space x"
    using trim_decomp by blast
  let ?cs = "[title_capture t, cell_capture d]"
  have prio: "bt [Star is_space, Open, Plus is_word, Close, Star is_space, Chr (lit CHR ''|'')]
                (p @ CHR ''|'' # R) st' ?cs = Some (?cs @ [trim p], R)" for st'
  proof -
    have eq: "p @ CHR ''|'' # R = w1 @ trim p @ w2 @ CHR ''|'' # R"
      using p by (metis append_assoc)
    show ?thesis unfolding eq by (rule prio_match [OF w q])
  qed
  have desc: "bt [Star is_space, Open, Plus (none_of ''|''), Close, Star is_space, Chr (lit CHR ''|''),
                  Star is_space, Open, Plus is_word, Close, Star is_space, Chr (lit CHR ''|'')]
                (d @ CHR ''|'' # p @ CHR ''|'' # R) st' [title_capture t] = Some (?cs @ [trim p], R)" for st'
    by (rule desc_cell [OF d]) (simp add: space_facts lit_def prio)
  have "bt [Star is_space, Opt (lit CHR ''*''), Opt (lit CHR ''*''), Open, Plus (none_of ''|*''), Close,
            Opt (lit CHR ''*''), Opt (lit CHR ''*''), Star is_space, Chr (lit CHR ''|''),
            Star is_space, Open, Plus (none_of ''|''), Close, Star is_space, Chr (lit CHR ''|''),
            Star is_space, Open, Plus is_word, Close, Star is_space, Chr (lit CHR ''|'')]
          (t @ CHR ''|'' # d @ CHR ''|'' # p @ CHR ''|'' # R) st' [] = Some (?cs @ [trim p], R)" for st'
    by (rule title_match [OF t]) (simp add: desc)
  then show ?thesis
    by (simp add: tableRowRegex_def render_row_def lit_def)
qed

lemma space_lower: "is_space c \<Longrightarrow> lower_char c = c"
  by (auto simp: is_space_def lower_char_def)

lemma dropWhile_all: "(\<forall>x\<in>set q. \<not> P x) \<Longrightarrow> dropWhile P q = q"
  by (cases q) auto

lemma trim_no_space: "(\<forall>x\<in>set q. \<not> is_space x) \<Longrightarrow> trim q = q"
  by (simp add: trim_def dropWhile_all)

lemma dropWhile_nil_all: "dropWhile P t = [] \<Longrightarrow> \<forall>x\<in>set t. P x"
  by (induction t) (auto split: if_splits)

lemma trim_cell_capture: "t \<noteq> [] \<Longrightarrow> trim (cell_capture t) = trim t"
proof (cases "\<forall>x\<in>set t. is_space x")
  case True
  assume "t \<noteq> []"
  with True have sp: "is_space (last t)" by simp
  from True have dn: "dropWhile is_space t = []" by simp
  have "cell_capture t = [last t]" unfolding cell_capture_def dn by simp
  moreover have "trim t = []" unfolding trim_def dn by simp
  ultimately show ?thesis using sp by (simp add: trim_def)
next
  case False
  then have "dropWhile is_space t \<noteq> []" by simp
  then have "cell_capture t = dropWhile is_space t" unfolding cell_capture_def by (simp only: if_False)
  then show ?thesis by (simp add: trim_def)
qed

lemma includes_dropWhile:
  assumes "sub \<noteq> []" and "\<And>c. is_space c \<Longrightarrow> f c \<noteq> hd sub"
  shows "includes_str (map f (dropWhile is_space t)) sub = includes_str (map f t) sub"
proof (induction t)
  case Nil
  then show ?case by simp
next
  case (Cons c t)
  show ?case
  proof (cases "is_space c")
    case True
    have "take (length sub) (f c # map f t) \<noteq> sub"
    proof
      assume "take (length sub) (f c # map f t) = sub"
      then have "hd sub = f c" using assms(1) by (cases sub) auto
      with assms(2) [OF True] show False by simp
    qed
    with True Cons show ?thesis by simp
  next
    case False
    then show ?thesis by simp
  qed
qed

lemma header_cell_capture:
  assumes "t \<noteq> []"
  shows "is_header_row (cell_capture t) = is_header_row t"
proof -
  have a: "includes_str (toLowerCase (dropWhile is_space s)) ''title'' = includes_str (toLowerCase s) ''title''" for s
    unfolding toLowerCase_def
    by (rule includes_dropWhile) (auto simp: is_space_def lower_char_def)
  have b: "includes_str (dropWhile is_space s) ''---'' = includes_str s ''---''" for s
    using includes_dropWhile [of "''---''" "\<lambda>c. c" s] by (auto simp: is_space_def)
  show ?thesis
  proof (cases "\<forall>x\<in>set t. is_space x")
    case True
    with assms have sp: "is_space (last t)" by simp
    from True have dn: "dropWhile is_space t = []" by simp
    have "\<not> is_header_row t"
      unfolding is_header_row_def a [of t, symmetric] b [of t, symmetric] dn
      by (simp add: toLowerCase_def)
    moreover have "\<not> is_header_row [last t]"
      unfolding is_header_row_def a [of "[last t]", symmetric] b [of "[last t]", symmetric]
      using sp by (simp add: toLowerCase_def)
    moreover have "cell_capture t = [last t]" unfolding cell_capture_def dn by simp
    ultimately show ?thesis by simp
  next
    case False
    then have "dropWhile is_space t \<noteq> []" by simp
    then have "cell_capture t = dropWhile is_space t" unfolding cell_capture_def by (simp only: if_False)
    then show ?thesis by (simp add: is_header_row_def a b)
  qed
qed

lemma header_title_capture:
  assumes "t \<noteq> []"
  shows "is_header_row (title_capture t) = is_header_row (title_text t)"
  using header_cell_capture [OF assms] by (simp add: title_capture_def title_text_def)

lemma makeTicket_captures:
  assumes "valid_row (t, d, p)"
  shows "makeTicket (title_capture t) (cell_capture d) (trim p) = makeTicket (title_text t) d p"
proof -
  from assms have "t \<noteq> []" "d \<noteq> []" "\<forall>x\<in>set (trim p). is_word x" by (auto simp: valid_row_def)
  then have "trim (title_capture t) = trim (title_text t)" "trim (cell_capture d) = trim d" "trim (trim p) = trim p"
    by (simp_all add: trim_cell_capture trim_no_space word_not_space title_capture_def title_text_def)
  then show ?thesis by (simp add: makeTicket_def)
qed

lemma exec_row:
  assumes "valid_row (t, d, p)"
  shows "exec tableRowRegex (render_row (t, d, p) @ R) = Some ([title_capture t, cell_capture d, trim p], R)"
    and "exec tableRowRegex (CHR 0x0A # render_row (t, d, p) @ R) = Some ([title_capture t, cell_capture d, trim p], R)"
proof -
  obtain ys where ys: "render_row (t, d, p) @ R = CHR ''|'' # ys" by (simp add: render_row_def)
  have m: "bt tableRowRegex (CHR ''|'' # ys) (CHR ''|'' # ys) [] = Some ([title_capture t, cell_capture d, trim p], R)"
    using row_match [OF assms, of R "CHR ''|'' # ys"] ys by simp
  then show a: "exec tableRowRegex (render_row (t, d, p) @ R) = Some ([title_capture t, cell_capture d, trim p], R)"
    by (simp add: ys)
  have "bt tableRowRegex (CHR 0x0A # CHR ''|'' # ys) (CHR 0x0A # CHR ''|'' # ys) [] = None"
    by (simp add: tableRowRegex_def lit_def)
  then show "exec tableRowRegex (CHR 0x0A # render_row (t, d, p) @ R) = Some ([title_capture t, cell_capture d, trim p], R)"
    using m by (simp add: ys)
qed

lemma spec_tickets_Cons:
  "spec_tickets ((t, d, p) # rows) = (if is_header_row (title_text t) then [] else [makeTicket (title_text t) d p]) @ spec_tickets rows"
  by (simp add: spec_tickets_def is_header_row_def makeTicket_def validPriorities_def Let_def)

lemma loop_row:
  assumes "valid_row (t, d, p)"
  shows "tableRowLoop (render_row (t, d, p) @ R) acc =
           (if is_header_row (title_text t) then tableRowLoop R acc
            else tableRowLoop R (acc @ [makeTicket (title_text t) d p]))"
    and "tableRowLoop (CHR 0x0A # render_row (t, d, p) @ R) acc =
           (if is_header_row (title_text t) then tableRowLoop R acc
            else tableRowLoop R (acc @ [makeTicket (title_text t) d p]))"
proof -
  from assms have t: "t \<noteq> []" by (simp add: valid_row_def)
  show "tableRowLoop (render_row (t, d, p) @ R) acc =
           (if is_header_row (title_text t) then tableRowLoop R acc
            else tableRowLoop R (acc @ [makeTicket (title_text t) d p]))"
    by (subst tableRowLoop.simps)
       (simp add: exec_row(1) [OF assms] header_title_capture [OF t] makeTicket_captures [OF assms])
  show "tableRowLoop (CHR 0x0A # render_row (t, d, p) @ R) acc =
           (if is_header_row (title_text t) then tableRowLoop R acc
            else tableRowLoop R (acc @ [makeTicket (title_text t) d p]))"
    by (subst tableRowLoop.simps)
       (simp add: exec_row(2) [OF assms] header_title_capture [OF t] makeTicket_captures [OF assms]
             del: exec.simps)
qed

lemma bt_literal_match:
  "bt (map (\<lambda>c. Chr (lit_i c)) h @ k) (h @ s) st cs = bt k s st cs"
  by (induction h) (simp_all add: lit_i_def)

lemma exec_skip:
  "(\<And>i. i < length pre \<Longrightarrow> bt re (drop i (pre @ s)) (drop i (pre @ s)) [] = None)
   \<Longrightarrow> exec re (pre @ s) = exec re s"
proof (induction pre)
  case Nil
  then show ?case by simp
next
  case (Cons x pre)
  from Cons.prems [of 0] have a: "bt re (x # pre @ s) (x # pre @ s) [] = None" by simp
  have "exec re (pre @ s) = exec re s"
  proof (rule Cons.IH)
    fix i assume "i < length pre"
    with Cons.prems [of "Suc i"] show "bt re (drop i (pre @ s)) (drop i (pre @ s)) [] = None" by simp
  qed
  with a show ?case by simp
qed

lemma take_drop_inside: "i + n \<le> length a \<Longrightarrow> take n (drop i (a @ b)) = take n (drop i a)"
  by simp

lemma no_heading_inside:
  assumes "heading_free pre" and "i < length pre"
  shows "bt ticketSectionRegex (drop i (pre @ ''## Suggested Tickets'' @ rest)) st [] = None"
proof (rule ccontr)
  define H where "H = ''## Suggested Ticket''"
  define h where "h = ''## suggested tickets''"
  let ?doc = "pre @ ''## Suggested Tickets'' @ rest"
  have lenH: "length ''## Suggested Tickets'' = Suc (length H)" by (simp add: H_def)
  have lenh: "length h = Suc (length H)" by (simp add: H_def h_def)
  have low: "toLowerCase ''## Suggested Tickets'' = h" unfolding h_def by code_simp
  have doc: "?doc = (pre @ H) @ CHR ''s'' # rest" by (simp add: H_def)
  assume "bt ticketSectionRegex (drop i ?doc) st [] \<noteq> None"
  then obtain r where "bt ticketSectionRegex (drop i ?doc) st [] = Some r" by auto
  then have "toLowerCase (take (length ''## Suggested Tickets'') (drop i ?doc)) = toLowerCase ''## Suggested Tickets''"
    unfolding ticketSectionRegex_def by (rule bt_literal_prefix)
  then have a: "toLowerCase (take (Suc (length H)) (drop i ?doc)) = h"
    unfolding lenH low .
  have "i + Suc (length H) \<le> length (pre @ H)" using assms(2) by simp
  from take_drop_inside [OF this, of "CHR ''s'' # rest"]
  have "take (Suc (length H)) (drop i ?doc) = take (Suc (length H)) (drop i (pre @ H))"
    unfolding doc .
  with a have "toLowerCase (take (length h) (drop i (pre @ H))) = h"
    unfolding lenh by simp
  then have "take (length h) (drop i (toLowerCase (pre @ H))) = h"
    unfolding toLowerCase_def by (simp only: take_map drop_map)
  moreover have "i \<le> length (toLowerCase (pre @ H))"
    using assms(2) by (simp add: toLowerCase_def)
  ultimately have "includes_str (toLowerCase (pre @ H)) h"
    unfolding includes_str_iff by blast
  with assms(1) show False unfolding heading_free_def H_def h_def by simp
qed

lemma lazy_step:
  "\<not> list_ex (\<lambda>a. look_ok a (x # s)) alts
   \<Longrightarrow> bt [Lazy any_char, Close, Ahead alts] (x # s) st cs = bt [Lazy any_char, Close, Ahead alts] s st cs"
  by (simp add: any_char_def)

lemma lazy_end:
  "list_ex (\<lambda>a. look_ok a post) alts
   \<Longrightarrow> bt [Lazy any_char, Close, Ahead alts] post st cs = Some (cs @ [take (length st - length post) st], post)"
  by (cases post) simp_all

lemma section_end_char:
  "x \<noteq> CHR 0x0A \<Longrightarrow> \<not> list_ex (\<lambda>a. look_ok a (x # s)) section_end"
  by (simp add: section_end_def)

lemma section_end_bar:
  "\<not> list_ex (\<lambda>a. look_ok a (CHR 0x0A # CHR ''|'' # s)) section_end"
  by (simp add: section_end_def)

lemma lazy_line:
  "\<forall>c\<in>set a. c \<noteq> CHR 0x0A
   \<Longrightarrow> bt [Lazy any_char, Close, Ahead section_end] (a @ s) st cs =
       bt [Lazy any_char, Close, Ahead section_end] s st cs"
proof (induction a)
  case Nil
  then show ?case by simp
next
  case (Cons x a)
  then have x: "x \<noteq> CHR 0x0A" and a: "\<forall>c\<in>set a. c \<noteq> CHR 0x0A" by simp_all
  show ?case
    by (simp only: append_Cons lazy_step [OF section_end_char [OF x]] Cons.IH [OF a])
qed

lemma render_row_line:
  assumes "valid_row r"
  shows "\<forall>c\<in>set (render_row r). c \<noteq> CHR 0x0A"
proof -
  obtain t d p where r: "r = (t, d, p)" by (cases r)
  from assms have "\<forall>c\<in>set t. c \<noteq> CHR 0x0A" "\<forall>c\<in>set d. c \<noteq> CHR 0x0A" "\<forall>c\<in>set p. c \<noteq> CHR 0x0A"
    unfolding valid_row_def r by simp_all
  then show ?thesis unfolding r render_row_def by (simp add: ball_Un)
qed

lemma lazy_table:
  "\<forall>r\<in>set rows. \<forall>c\<in>set (render_row r). c \<noteq> CHR 0x0A
   \<Longrightarrow> bt [Lazy any_char, Close, Ahead section_end] (render_table rows @ s) st cs =
       bt [Lazy any_char, Close, Ahead section_end] s st cs"
proof (induction rows)
  case Nil
  then show ?case by (simp add: render_table_def)
next
  case (Cons r rows)
  obtain ys where ys: "render_row r = CHR ''|'' # ys" by (cases r) (simp add: render_row_def)
  have t: "render_table (r # rows) @ s = CHR 0x0A # CHR ''|'' # (ys @ render_table rows @ s)"
    by (simp add: render_table_def ys)
  have line: "\<forall>c\<in>set (CHR ''|'' # ys). c \<noteq> CHR 0x0A"
    using Cons.prems ys by simp
  have "bt [Lazy any_char, Close, Ahead section_end] (render_table (r # rows) @ s) st cs =
        bt [Lazy any_char, Close, Ahead section_end] ((CHR ''|'' # ys) @ render_table rows @ s) st cs"
    unfolding t by (simp only: lazy_step [OF section_end_bar] append_Cons)
  also have "\<dots> = bt [Lazy any_char, Close, Ahead section_end] (render_table rows @ s) st cs"
    by (rule lazy_line [OF line])
  also have "\<dots> = bt [Lazy any_char, Close, Ahead section_end] s st cs"
    by (rule Cons.IH) (use Cons.prems in simp)
  finally show ?case .
qed

lemma section_match:
  assumes "heading_free pre" and "\<forall>c\<in>set (render_row r). c \<noteq> CHR 0x0A"
    and "\<forall>r\<in>set rows. \<forall>c\<in>set (render_row r). c \<noteq> CHR 0x0A"
    and "post = [] \<or> starts_with [CHR 0x0A, CHR ''#'', CHR ''#'', CHR '' ''] post"
  shows "exec ticketSectionRegex (pre @ ''## Suggested Tickets'' @ render_table (r # rows) @ post) =
           Some ([render_row r @ render_table rows], post)"
proof -
  let ?sec = "render_row r @ render_table rows"
  let ?L = "[Lazy any_char, Close, Ahead section_end]"
  obtain ys where ys: "render_row r = CHR ''|'' # ys" by (cases r) (simp add: render_row_def)
  have t: "render_table (r # rows) @ post = CHR 0x0A # ?sec @ post"
    by (simp add: render_table_def)
  have e: "list_ex (\<lambda>a. look_ok a post) section_end"
    using assms(4) by (auto simp: section_end_def starts_with_def)
  have "bt ?L (?sec @ post) (?sec @ post) [] = bt ?L (render_table rows @ post) (?sec @ post) []"
    by (simp only: append_assoc lazy_line [OF assms(2)])
  also have "\<dots> = bt ?L post (?sec @ post) []"
    by (rule lazy_table [OF assms(3)])
  also have "\<dots> = Some ([?sec], post)"
    by (simp only: lazy_end [OF e] length_append add_diff_cancel_right' take_all_iff append_Nil
                   append_eq_conv_conj) simp
  finally have lz: "bt ?L (?sec @ post) (?sec @ post) [] = Some ([?sec], post)" .
  have tail: "bt ([Star is_space, Chr (lit CHR 0x0A), Open] @ ?L) (CHR 0x0A # ?sec @ post) st [] = Some ([?sec], post)" for st
  proof -
    have "bt (Star is_space # Chr (lit CHR 0x0A) # Open # ?L) (CHR ''|'' # ys @ render_table rows @ post) st [] = None"
      by (simp add: space_facts lit_def)
    moreover have "bt (Chr (lit CHR 0x0A) # Open # ?L) (CHR 0x0A # ?sec @ post) st [] = Some ([?sec], post)"
      using lz by (simp add: lit_def)
    ultimately show ?thesis by (simp add: ys space_facts)
  qed
  have re: "ticketSectionRegex = map (\<lambda>c. Chr (lit_i c)) ''## Suggested Tickets'' @ ([Star is_space, Chr (lit CHR 0x0A), Open] @ ?L)"
    by (simp add: ticketSectionRegex_def section_end_def)
  have m: "bt ticketSectionRegex (''## Suggested Tickets'' @ render_table (r # rows) @ post) st [] =
                  Some ([?sec], post)" for st
    unfolding re t bt_literal_match by (rule tail)
  have "exec ticketSectionRegex (pre @ ''## Suggested Tickets'' @ render_table (r # rows) @ post) =
        exec ticketSectionRegex (''## Suggested Tickets'' @ render_table (r # rows) @ post)"
    by (rule exec_skip) (rule no_heading_inside [OF assms(1)])
  also have "\<dots> = Some ([?sec], post)"
  proof -
    obtain zs where zs: "''## Suggested Tickets'' @ render_table (r # rows) @ post = CHR ''#'' # zs" by simp
    show ?thesis unfolding zs using m [of "CHR ''#'' # zs"] unfolding zs by simp
  qed
  finally show ?thesis .
qed

lemma loop_matches:
  "tableRowLoop s acc =
     acc @ map (\<lambda>(title, description, priority). makeTicket title description priority)
               (kept_rows (tableRowMatches s))"
proof (induction s acc rule: tableRowLoop.induct)
  case (1 s tickets)
  show ?case
  proof (cases "exec tableRowRegex s")
    case None
    then show ?thesis
      by (subst tableRowLoop.simps, subst tableRowMatches.simps) (simp add: kept_rows_def)
  next
    case (Some a)
    obtain m rest where a: "a = (m, rest)" by (cases a)
    show ?thesis
    proof (cases "\<exists>t d p. m = [t, d, p]")
      case True
      then obtain t d p where m: "m = [t, d, p]" by blast
      show ?thesis
      proof (cases "is_header_row t")
        case True
        with 1(1) [OF Some a [symmetric] m] Some a m show ?thesis
          by (subst tableRowLoop.simps, subst tableRowMatches.simps)
             (simp add: kept_rows_def is_header_row_def)
      next
        case False
        with 1(2) [OF Some a [symmetric] m] Some a m show ?thesis
          by (subst tableRowLoop.simps, subst tableRowMatches.simps)
             (simp add: kept_rows_def is_header_row_def)
      qed
    next
      case False
      with Some a show ?thesis
        by (subst tableRowLoop.simps, subst tableRowMatches.simps)
           (auto simp: kept_rows_def split: list.splits)
    qed
  qed
qed

lemma includes_mid:
  assumes "includes_str b sub"
  shows "includes_str (a @ b @ c) sub"
proof -
  from assms obtain i where i: "i \<le> length b" "take (length sub) (drop i b) = sub"
    unfolding includes_str_iff by blast
  then have "length (take (length sub) (drop i b)) = length sub" by simp
  then have "length sub \<le> length (drop i b)"
    by (simp only: length_take)
  then have "take (length sub) (drop (length a + i) (a @ b @ c)) = take (length sub) (drop i b)"
    using i(1) by simp
  with i have "length a + i \<le> length (a @ b @ c) \<and> take (length sub) (drop (length a + i) (a @ b @ c)) = sub"
    by simp
  then show ?thesis unfolding includes_str_iff by blast
qed

lemma header_trim:
  assumes "\<not> is_header_row t"
  shows "\<not> includes_str (toLowerCase (trim t)) ''title'' \<and> \<not> includes_str (trim t) ''---''"
proof -
  obtain w1 w2 where t: "t = w1 @ trim t @ w2" using trim_decomp by blast
  have "includes_str (trim t) sub \<Longrightarrow> includes_str t sub" for sub
    using includes_mid [of "trim t" sub w1 w2] t by simp
  moreover have "includes_str (toLowerCase (trim t)) sub \<Longrightarrow> includes_str (toLowerCase t) sub" for sub
  proof -
    assume a: "includes_str (toLowerCase (trim t)) sub"
    have "toLowerCase t = toLowerCase w1 @ toLowerCase (trim t) @ toLowerCase w2"
      unfolding toLowerCase_def using t by (metis map_append)
    with includes_mid [OF a] show ?thesis by simp
  qed
  ultimately show ?thesis using assms unfolding is_header_row_def by blast
qed

lemma star_sound:
  "bt (Star P # k) s st cs = Some r
   \<Longrightarrow> \<exists>w s'. s = w @ s' \<and> (\<forall>x\<in>set w. P x) \<and> bt k s' st cs = Some r"
proof (induction s)
  case Nil
  then show ?case by simp
next
  case (Cons x xs)
  have stop: ?case if "bt k (x # xs) st cs = Some r"
  proof -
    from that have "x # xs = [] @ (x # xs) \<and> (\<forall>y\<in>set []. P y) \<and> bt k (x # xs) st cs = Some r" by simp
    then show ?thesis by blast
  qed
  show ?case
  proof (cases "P x")
    case False
    with Cons.prems show ?thesis by (intro stop) simp
  next
    case True
    show ?thesis
    proof (cases "bt (Star P # k) xs st cs")
      case None
      with True Cons.prems show ?thesis by (intro stop) simp
    next
      case (Some r')
      with True Cons.prems have "bt (Star P # k) xs st cs = Some r" by simp
      from Cons.IH [OF this] obtain w s' where "xs = w @ s'" "\<forall>x\<in>set w. P x" "bt k s' st cs = Some r"
        by blast
      with True have "x # xs = (x # w) @ s' \<and> (\<forall>y\<in>set (x # w). P y) \<and> bt k s' st cs = Some r" by simp
      then show ?thesis by blast
    qed
  qed
qed

lemma plus_sound:
  assumes "bt (Plus P # k) s st cs = Some r"
  shows "\<exists>w s'. s = w @ s' \<and> w \<noteq> [] \<and> (\<forall>x\<in>set w. P x) \<and> bt k s' st cs = Some r"
proof -
  from assms obtain x xs where s: "s = x # xs" "P x" "bt (Star P # k) xs st cs = Some r"
    by (cases s) (auto split: if_splits)
  from star_sound [OF s(3)] obtain w s' where "xs = w @ s'" "\<forall>x\<in>set w. P x" "bt k s' st cs = Some r"
    by blast
  with s have "s = (x # w) @ s' \<and> x # w \<noteq> [] \<and> (\<forall>y\<in>set (x # w). P y) \<and> bt k s' st cs = Some r" by simp
  then show ?thesis by blast
qed

lemma opt_sound:
  assumes "bt (Opt P # k) s st cs = Some r"
  shows "\<exists>w s'. s = w @ s' \<and> (\<forall>x\<in>set w. P x) \<and> bt k s' st cs = Some r"
proof (cases s)
  case Nil
  with assms have "s = [] @ [] \<and> (\<forall>y\<in>set []. P y) \<and> bt k [] st cs = Some r" by simp
  then show ?thesis by blast
next
  case (Cons x xs)
  have stop: ?thesis if "bt k s st cs = Some r"
  proof -
    from that have "s = [] @ s \<and> (\<forall>y\<in>set []. P y) \<and> bt k s st cs = Some r" by simp
    then show ?thesis by blast
  qed
  show ?thesis
  proof (cases "P x")
    case False
    with assms Cons show ?thesis by (intro stop) simp
  next
    case True
    show ?thesis
    proof (cases "bt k xs st cs")
      case None
      with True assms Cons show ?thesis by (intro stop) simp
    next
      case (Some r')
      with True assms Cons have "s = [x] @ xs \<and> (\<forall>y\<in>set [x]. P y) \<and> bt k xs st cs = Some r" by simp
      then show ?thesis by blast
    qed
  qed
qed

lemma chr_sound:
  "bt (Chr P # k) s st cs = Some r \<Longrightarrow> \<exists>x s'. s = x # s' \<and> P x \<and> bt k s' st cs = Some r"
  by (cases s) (auto split: if_splits)

lemma cell_sound:
  assumes "bt (Star is_space # Open # Plus P # Close # Star is_space # Chr (lit CHR ''|'') # K) s st cs = Some r"
  shows "\<exists>w1 q w2 s' st' cs'. s = w1 @ q @ w2 @ CHR ''|'' # s' \<and> (\<forall>x\<in>set w1. is_space x) \<and>
           q \<noteq> [] \<and> (\<forall>x\<in>set q. P x) \<and> (\<forall>x\<in>set w2. is_space x) \<and> bt K s' st' cs' = Some r"
proof -
  from star_sound [OF assms] obtain w1 s1 where
    1: "s = w1 @ s1" "\<forall>x\<in>set w1. is_space x"
       "bt (Open # Plus P # Close # Star is_space # Chr (lit CHR ''|'') # K) s1 st cs = Some r"
    by blast
  then have "bt (Plus P # Close # Star is_space # Chr (lit CHR ''|'') # K) s1 s1 cs = Some r" by simp
  from plus_sound [OF this] obtain q s2 where
    2: "s1 = q @ s2" "q \<noteq> []" "\<forall>x\<in>set q. P x"
       "bt (Close # Star is_space # Chr (lit CHR ''|'') # K) s2 s1 cs = Some r"
    by blast
  then obtain cs2 where "bt (Star is_space # Chr (lit CHR ''|'') # K) s2 s1 cs2 = Some r" by simp
  from star_sound [OF this] obtain w2 s3 where
    3: "s2 = w2 @ s3" "\<forall>x\<in>set w2. is_space x" "bt (Chr (lit CHR ''|'') # K) s3 s1 cs2 = Some r"
    by blast
  from chr_sound [OF 3(3)] obtain s' where 4: "s3 = CHR ''|'' # s'" "bt K s' s1 cs2 = Some r"
    by (auto simp: lit_def)
  from 1(1) 2(1) 3(1) 4(1) have "s = w1 @ q @ w2 @ CHR ''|'' # s'" by simp
  with 1(2) 2(2,3) 3(2) 4(2) show ?thesis by (intro exI conjI)
qed

lemma title_sound:
  assumes "bt (Star is_space # Opt (lit CHR ''*'') # Opt (lit CHR ''*'') # Open # Plus (none_of ''|*'') # Close #
               Opt (lit CHR ''*'') # Opt (lit CHR ''*'') # Star is_space # Chr (lit CHR ''|'') # K) s st cs = Some r"
  shows "\<exists>a s' st' cs'. s = a @ CHR ''|'' # s' \<and> CHR ''|'' \<notin> set a \<and> bt K s' st' cs' = Some r"
proof -
  let ?star = "lit CHR ''*''"
  from star_sound [OF assms] obtain w1 s1 where
    1: "s = w1 @ s1" "\<forall>x\<in>set w1. is_space x"
       "bt (Opt ?star # Opt ?star # Open # Plus (none_of ''|*'') # Close #
               Opt ?star # Opt ?star # Star is_space # Chr (lit CHR ''|'') # K) s1 st cs = Some r"
    by blast
  from opt_sound [OF 1(3)] obtain o1 s2 where
    2: "s1 = o1 @ s2" "\<forall>x\<in>set o1. ?star x"
       "bt (Opt ?star # Open # Plus (none_of ''|*'') # Close #
               Opt ?star # Opt ?star # Star is_space # Chr (lit CHR ''|'') # K) s2 st cs = Some r"
    by blast
  from opt_sound [OF 2(3)] obtain o2 s3 where
    3: "s2 = o2 @ s3" "\<forall>x\<in>set o2. ?star x"
       "bt (Open # Plus (none_of ''|*'') # Close #
               Opt ?star # Opt ?star # Star is_space # Chr (lit CHR ''|'') # K) s3 st cs = Some r"
    by blast
  then have "bt (Plus (none_of ''|*'') # Close #
               Opt ?star # Opt ?star # Star is_space # Chr (lit CHR ''|'') # K) s3 s3 cs = Some r" by simp
  from plus_sound [OF this] obtain q s4 where
    4: "s3 = q @ s4" "\<forall>x\<in>set q. none_of ''|*'' x"
       "bt (Close # Opt ?star # Opt ?star # Star is_space # Chr (lit CHR ''|'') # K) s4 s3 cs = Some r"
    by blast
  then obtain cs2 where "bt (Opt ?star # Opt ?star # Star is_space # Chr (lit CHR ''|'') # K) s4 s3 cs2 = Some r"
    by simp
  from opt_sound [OF this] obtain o3 s5 where
    5: "s4 = o3 @ s5" "\<forall>x\<in>set o3. ?star x"
       "bt (Opt ?star # Star is_space # Chr (lit CHR ''|'') # K) s5 s3 cs2 = Some r"
    by blast
  from opt_sound [OF 5(3)] obtain o4 s6 where
    6: "s5 = o4 @ s6" "\<forall>x\<in>set o4. ?star x"
       "bt (Star is_space # Chr (lit CHR ''|'') # K) s6 s3 cs2 = Some r"
    by blast
  from star_sound [OF 6(3)] obtain w2 s7 where
    7: "s6 = w2 @ s7" "\<forall>x\<in>set w2. is_space x" "bt (Chr (lit CHR ''|'') # K) s7 s3 cs2 = Some r"
    by blast
  from chr_sound [OF 7(3)] obtain s' where 8: "s7 = CHR ''|'' # s'" "bt K s' s3 cs2 = Some r"
    by (auto simp: lit_def)
  let ?a = "w1 @ o1 @ o2 @ q @ o3 @ o4 @ w2"
  have "s = ?a @ CHR ''|'' # s'" using 1(1) 2(1) 3(1) 4(1) 5(1) 6(1) 7(1) 8(1) by simp
  moreover have "CHR ''|'' \<notin> set ?a"
  proof -
    have sp: "CHR ''|'' \<notin> set w" if "\<forall>x\<in>set w. is_space x" for w
      using that space_facts(1) by blast
    have st: "CHR ''|'' \<notin> set w" if "\<forall>x\<in>set w. lit CHR ''*'' x" for w
      using that unfolding lit_def by fastforce
    have nb: "CHR ''|'' \<notin> set w" if "\<forall>x\<in>set w. none_of ''|*'' x" for w
      using that unfolding none_of_def by fastforce
    show ?thesis
      using sp [OF 1(2)] st [OF 2(2)] st [OF 3(2)] nb [OF 4(2)] st [OF 5(2)] st [OF 6(2)] sp [OF 7(2)]
      by simp
  qed
  ultimately show ?thesis using 8(2) by (intro exI conjI)
qed

lemma row_sound:
  assumes "bt tableRowRegex s st cs = Some (cs', R)"
  shows "\<exists>a b w1 q w2. s = CHR ''|'' # a @ CHR ''|'' # b @ CHR ''|'' # (w1 @ q @ w2) @ CHR ''|'' # R \<and>
           CHR ''|'' \<notin> set a \<and> CHR ''|'' \<notin> set b \<and> (\<forall>x\<in>set w1. is_space x) \<and>
           (\<forall>x\<in>set w2. is_space x) \<and> q \<noteq> [] \<and> (\<forall>x\<in>set q. is_word x)"
proof -
  from chr_sound [OF assms [unfolded tableRowRegex_def]] obtain s1 where
    1: "s = CHR ''|'' # s1"
       "bt [Star is_space, Opt (lit CHR ''*''), Opt (lit CHR ''*''),
            Open, Plus (none_of ''|*''), Close,
            Opt (lit CHR ''*''), Opt (lit CHR ''*''), Star is_space, Chr (lit CHR ''|''),
            Star is_space, Open, Plus (none_of ''|''), Close, Star is_space, Chr (lit CHR ''|''),
            Star is_space, Open, Plus is_word, Close, Star is_space, Chr (lit CHR ''|'')] s1 st cs = Some (cs', R)"
    by (auto simp: lit_def)
  from title_sound [OF 1(2)] obtain a s2 st2 cs2 where
    2: "s1 = a @ CHR ''|'' # s2" "CHR ''|'' \<notin> set a"
       "bt [Star is_space, Open, Plus (none_of ''|''), Close, Star is_space, Chr (lit CHR ''|''),
            Star is_space, Open, Plus is_word, Close, Star is_space, Chr (lit CHR ''|'')] s2 st2 cs2 = Some (cs', R)"
    by blast
  from cell_sound [OF 2(3)] obtain v1 b0 v2 s3 st3 cs3 where
    3: "s2 = v1 @ b0 @ v2 @ CHR ''|'' # s3" "\<forall>x\<in>set v1. is_space x" "\<forall>x\<in>set b0. none_of ''|'' x"
       "\<forall>x\<in>set v2. is_space x"
       "bt [Star is_space, Open, Plus is_word, Close, Star is_space, Chr (lit CHR ''|'')] s3 st3 cs3 = Some (cs', R)"
    by blast
  from cell_sound [OF 3(5)] obtain w1 q w2 s4 st4 cs4 where
    4: "s3 = w1 @ q @ w2 @ CHR ''|'' # s4" "\<forall>x\<in>set w1. is_space x" "q \<noteq> []" "\<forall>x\<in>set q. is_word x"
       "\<forall>x\<in>set w2. is_space x" "bt [] s4 st4 cs4 = Some (cs', R)"
    by blast
  from 4(6) have R: "s4 = R" by simp
  let ?b = "v1 @ b0 @ v2"
  have "s = CHR ''|'' # a @ CHR ''|'' # ?b @ CHR ''|'' # (w1 @ q @ w2) @ CHR ''|'' # R"
    using 1(1) 2(1) 3(1) 4(1) R by simp
  moreover have "CHR ''|'' \<notin> set ?b"
  proof -
    have sp: "CHR ''|'' \<notin> set w" if "\<forall>x\<in>set w. is_space x" for w
      using that space_facts(1) by blast
    have nb: "CHR ''|'' \<notin> set w" if "\<forall>x\<in>set w. none_of ''|'' x" for w
      using that unfolding none_of_def by fastforce
    show ?thesis using sp [OF 3(2)] nb [OF 3(3)] sp [OF 3(4)] by simp
  qed
  ultimately show ?thesis using 2(2) 4(2,3,4,5) by (intro exI conjI)
qed

lemma trim_sandwich:
  assumes "\<forall>x\<in>set w1. is_space x" and "\<forall>x\<in>set w2. is_space x" and "\<forall>x\<in>set q. \<not> is_space x"
    and "q \<noteq> []"
  shows "trim (w1 @ q @ w2) = q"
proof -
  from assms(4) obtain x xs where Cons: "q = x # xs" by (cases q) auto
  with assms(3) have x: "\<not> is_space x" by simp
  have a: "dropWhile is_space (w1 @ q @ w2) = q @ w2"
    using assms(1) x Cons by (simp add: dropWhile_append3)
  have "rev (q @ w2) = rev w2 @ rev q" by simp
  moreover have "\<forall>x\<in>set (rev w2). is_space x" using assms(2) by simp
  ultimately have "dropWhile is_space (rev (q @ w2)) = dropWhile is_space (rev q)"
    by (simp only: dropWhile_append2)
  also have "\<dots> = rev q" using assms(3) by (simp add: dropWhile_all)
  finally show ?thesis unfolding trim_def a by simp
qed

lemma split_unique:
  "x \<notin> set a \<Longrightarrow> x \<notin> set a' \<Longrightarrow> a @ x # r = a' @ x # r' \<Longrightarrow> a = a' \<and> r = r'"
proof (induction a arbitrary: a')
  case Nil
  then show ?case by (cases a') auto
next
  case (Cons y ys)
  then show ?case by (cases a') auto
qed

lemma bad_row_no_match:
  assumes "bad_priority_row (t, d, p)"
  shows "bt tableRowRegex (render_row (t, d, p) @ R) st cs = None"
proof (rule ccontr)
  assume "bt tableRowRegex (render_row (t, d, p) @ R) st cs \<noteq> None"
  then obtain cs' R' where "bt tableRowRegex (render_row (t, d, p) @ R) st cs = Some (cs', R')" by auto
  from row_sound [OF this] obtain a b w1 q w2 where
    eq: "render_row (t, d, p) @ R = CHR ''|'' # a @ CHR ''|'' # b @ CHR ''|'' # (w1 @ q @ w2) @ CHR ''|'' # R'"
    and a: "CHR ''|'' \<notin> set a" and b: "CHR ''|'' \<notin> set b"
    and w: "\<forall>x\<in>set w1. is_space x" "\<forall>x\<in>set w2. is_space x"
    and q: "q \<noteq> []" "\<forall>x\<in>set q. is_word x"
    by blast
  from assms have t: "CHR ''|'' \<notin> set t" and d: "CHR ''|'' \<notin> set d" and p: "CHR ''|'' \<notin> set p"
    and bad: "\<not> (trim p \<noteq> [] \<and> (\<forall>c\<in>set (trim p). is_word c))"
    by (auto simp: bad_priority_row_def)
  define c where "c = w1 @ q @ w2"
  have c: "CHR ''|'' \<notin> set c"
    unfolding c_def using w q(2) space_facts(1) bar_not_word by auto
  from eq have 1: "t @ CHR ''|'' # (d @ CHR ''|'' # p @ CHR ''|'' # R) = a @ CHR ''|'' # (b @ CHR ''|'' # c @ CHR ''|'' # R')"
    unfolding c_def by (simp add: render_row_def)
  from split_unique [OF t a 1]
  have 2: "d @ CHR ''|'' # (p @ CHR ''|'' # R) = b @ CHR ''|'' # (c @ CHR ''|'' # R')" by simp
  from split_unique [OF d b 2]
  have 3: "p @ CHR ''|'' # R = c @ CHR ''|'' # R'" by simp
  from split_unique [OF p c 3]
  have "p = c" by simp
  moreover have "trim (w1 @ q @ w2) = q"
    by (rule trim_sandwich [OF w _ q(1)]) (use q(2) word_not_space in blast)
  ultimately have "trim p = q" by (simp add: c_def)
  with q bad show False by simp
qed

lemma row_needs_four_bars:
  assumes "bt tableRowRegex s st cs = Some r"
  shows "4 \<le> length (filter (\<lambda>c. c = CHR ''|'') s)"
proof -
  obtain cs' R where "r = (cs', R)" by (cases r)
  with assms have "bt tableRowRegex s st cs = Some (cs', R)" by simp
  from row_sound [OF this] obtain a b w1 q w2 where
    "s = CHR ''|'' # a @ CHR ''|'' # b @ CHR ''|'' # (w1 @ q @ w2) @ CHR ''|'' # R" by blast
  then show ?thesis by simp
qed

lemma filter_drop_le: "length (filter P (drop i xs)) \<le> length (filter P xs)"
proof -
  have "length (filter P xs) = length (filter P (take i xs @ drop i xs))" by simp
  also have "\<dots> = length (filter P (take i xs)) + length (filter P (drop i xs))"
    by (simp only: filter_append length_append)
  finally show ?thesis by simp
qed

lemma bad_row_exec:
  assumes "bad_priority_row (t, d, p)"
  shows "exec tableRowRegex (render_row (t, d, p)) = None"
    and "exec tableRowRegex (CHR 0x0A # render_row (t, d, p)) = None"
proof -
  let ?rest = "t @ CHR ''|'' # d @ CHR ''|'' # p @ ''|''"
  have row: "render_row (t, d, p) = CHR ''|'' # ?rest" by (simp add: render_row_def)
  from assms have "CHR ''|'' \<notin> set t" "CHR ''|'' \<notin> set d" "CHR ''|'' \<notin> set p"
    by (auto simp: bad_priority_row_def)
  then have "filter (\<lambda>c. c = CHR ''|'') t = []" "filter (\<lambda>c. c = CHR ''|'') d = []"
    "filter (\<lambda>c. c = CHR ''|'') p = []"
    by (auto simp: filter_empty_conv)
  then have three: "length (filter (\<lambda>c. c = CHR ''|'') ?rest) = 3"
    by simp
  have inside: "bt tableRowRegex (drop j ?rest) (drop j ?rest) [] = None" for j
  proof (rule ccontr)
    assume "bt tableRowRegex (drop j ?rest) (drop j ?rest) [] \<noteq> None"
    then obtain r where "bt tableRowRegex (drop j ?rest) (drop j ?rest) [] = Some r" by auto
    from row_needs_four_bars [OF this] filter_drop_le [of "\<lambda>c. c = CHR ''|''" j ?rest] three
    show False by simp
  qed
  have start: "bt tableRowRegex (render_row (t, d, p)) st [] = None" for st
    using bad_row_no_match [OF assms, of "[]" st "[]"] by simp
  show a: "exec tableRowRegex (render_row (t, d, p)) = None"
  proof (rule exec_None)
    fix i
    show "bt tableRowRegex (drop i (render_row (t, d, p))) (drop i (render_row (t, d, p))) [] = None"
    proof (cases i)
      case 0
      then show ?thesis using start by simp
    next
      case (Suc j)
      then show ?thesis unfolding row using inside [of j] by simp
    qed
  qed
  have "bt tableRowRegex (CHR 0x0A # render_row (t, d, p)) (CHR 0x0A # render_row (t, d, p)) [] = None"
    by (simp add: tableRowRegex_def lit_def)
  with a show "exec tableRowRegex (CHR 0x0A # render_row (t, d, p)) = None" by simp
qed

lemma bad_row_line:
  assumes "bad_priority_row r"
  shows "\<forall>c\<in>set (render_row r). c \<noteq> CHR 0x0A"
proof -
  obtain t d p where r: "r = (t, d, p)" by (cases r)
  from assms have "\<forall>c\<in>set t. c \<noteq> CHR 0x0A" "\<forall>c\<in>set d. c \<noteq> CHR 0x0A" "\<forall>c\<in>set p. c \<noteq> CHR 0x0A"
    unfolding bad_priority_row_def r by simp_all
  then show ?thesis unfolding r render_row_def by (simp add: ball_Un)
qed

section \<open>Tables with rows that the pattern cannot match\<close>

lemma exec_step:
  "bt re (x # s) (x # s) [] = None \<Longrightarrow> exec re (x # s) = exec re s"
  by simp

lemma exec_skip_cell:
  "\<forall>c\<in>set a. c \<noteq> CHR ''|'' \<Longrightarrow> exec tableRowRegex (a @ CHR ''|'' # s) = exec tableRowRegex (CHR ''|'' # s)"
proof (induction a)
  case Nil
  then show ?case by simp
next
  case (Cons x xs)
  then have "x \<noteq> CHR ''|''" by simp
  then have "bt tableRowRegex (x # xs @ CHR ''|'' # s) (x # xs @ CHR ''|'' # s) [] = None"
    by (simp add: tableRowRegex_def lit_def)
  then have "exec tableRowRegex (x # xs @ CHR ''|'' # s) = exec tableRowRegex (xs @ CHR ''|'' # s)"
    by (rule exec_step)
  with Cons show ?case by simp
qed

lemma cells_no_match:
  assumes "CHR ''|'' \<notin> set a" and "CHR ''|'' \<notin> set b" and "CHR ''|'' \<notin> set c" and "\<not> one_word c"
  shows "bt tableRowRegex (CHR ''|'' # a @ CHR ''|'' # b @ CHR ''|'' # c @ CHR ''|'' # R) st cs = None"
proof (rule ccontr)
  let ?s = "CHR ''|'' # a @ CHR ''|'' # b @ CHR ''|'' # c @ CHR ''|'' # R"
  assume "bt tableRowRegex ?s st cs \<noteq> None"
  then obtain cs' R' where "bt tableRowRegex ?s st cs = Some (cs', R')" by auto
  from row_sound [OF this] obtain a' b' w1 q w2 where
    eq: "?s = CHR ''|'' # a' @ CHR ''|'' # b' @ CHR ''|'' # (w1 @ q @ w2) @ CHR ''|'' # R'"
    and a': "CHR ''|'' \<notin> set a'" and b': "CHR ''|'' \<notin> set b'"
    and w: "\<forall>x\<in>set w1. is_space x" "\<forall>x\<in>set w2. is_space x"
    and q: "q \<noteq> []" "\<forall>x\<in>set q. is_word x"
    by blast
  define c' where "c' = w1 @ q @ w2"
  have c': "CHR ''|'' \<notin> set c'"
    unfolding c'_def using w q(2) space_facts(1) bar_not_word by auto
  from eq have 1: "a @ CHR ''|'' # (b @ CHR ''|'' # c @ CHR ''|'' # R) = a' @ CHR ''|'' # (b' @ CHR ''|'' # c' @ CHR ''|'' # R')"
    unfolding c'_def by simp
  from split_unique [OF assms(1) a' 1]
  have 2: "b @ CHR ''|'' # (c @ CHR ''|'' # R) = b' @ CHR ''|'' # (c' @ CHR ''|'' # R')" by simp
  from split_unique [OF assms(2) b' 2]
  have 3: "c @ CHR ''|'' # R = c' @ CHR ''|'' # R'" by simp
  from split_unique [OF assms(3) c' 3]
  have "c = c'" by simp
  moreover have "trim (w1 @ q @ w2) = q"
    by (rule trim_sandwich [OF w _ q(1)]) (use q(2) word_not_space in blast)
  ultimately have "trim c = q" by (simp add: c'_def)
  with q assms(4) show False by (simp add: one_word_def)
qed

lemma newline_not_word: "\<not> one_word [CHR 0x0A]"
  by (simp add: one_word_def trim_def is_space_def)

lemma exec_bad_row_then:
  assumes "bad_priority_row (t, d, p)"
    and "CHR ''|'' \<notin> set t'" and "CHR ''|'' \<notin> set d'" and "\<not> one_word t'" and "\<not> one_word d'"
  shows "exec tableRowRegex (render_row (t, d, p) @ CHR 0x0A # CHR ''|'' # t' @ CHR ''|'' # d' @ CHR ''|'' # Y) =
         exec tableRowRegex (CHR ''|'' # t' @ CHR ''|'' # d' @ CHR ''|'' # Y)"
proof -
  let ?n = "[CHR 0x0A]"
  let ?next = "CHR ''|'' # t' @ CHR ''|'' # d' @ CHR ''|'' # Y"
  from assms(1) have t: "CHR ''|'' \<notin> set t" and d: "CHR ''|'' \<notin> set d" and p: "CHR ''|'' \<notin> set p"
    and bad: "\<not> one_word p"
    by (auto simp: bad_priority_row_def one_word_def)
  have n: "CHR ''|'' \<notin> set ?n" by simp
  have row: "render_row (t, d, p) @ CHR 0x0A # ?next =
               CHR ''|'' # t @ CHR ''|'' # d @ CHR ''|'' # p @ CHR ''|'' # ?n @ ?next"
    by (simp add: render_row_def)
  have "exec tableRowRegex (CHR ''|'' # t @ CHR ''|'' # d @ CHR ''|'' # p @ CHR ''|'' # ?n @ ?next) =
          exec tableRowRegex (t @ CHR ''|'' # d @ CHR ''|'' # p @ CHR ''|'' # ?n @ ?next)"
    by (rule exec_step) (rule cells_no_match [OF t d p bad])
  also have "\<dots> = exec tableRowRegex (CHR ''|'' # d @ CHR ''|'' # p @ CHR ''|'' # ?n @ ?next)"
    by (rule exec_skip_cell) (use t in blast)
  also have "\<dots> = exec tableRowRegex (d @ CHR ''|'' # p @ CHR ''|'' # ?n @ ?next)"
    by (rule exec_step) (rule cells_no_match [OF d p n newline_not_word])
  also have "\<dots> = exec tableRowRegex (CHR ''|'' # p @ CHR ''|'' # ?n @ ?next)"
    by (rule exec_skip_cell) (use d in blast)
  also have "\<dots> = exec tableRowRegex (p @ CHR ''|'' # ?n @ ?next)"
    by (rule exec_step) (rule cells_no_match [OF p n assms(2) assms(4)])
  also have "\<dots> = exec tableRowRegex (CHR ''|'' # ?n @ ?next)"
    by (rule exec_skip_cell) (use p in blast)
  also have "\<dots> = exec tableRowRegex (?n @ ?next)"
    by (rule exec_step) (rule cells_no_match [OF n assms(2) assms(3) assms(5)])
  also have "\<dots> = exec tableRowRegex ?next"
    by (rule exec_skip_cell) simp
  finally show ?thesis unfolding row .
qed

lemma loop_same_exec:
  "exec tableRowRegex s = exec tableRowRegex s' \<Longrightarrow> tableRowLoop s acc = tableRowLoop s' acc"
  by (subst tableRowLoop.simps, subst (2) tableRowLoop.simps) simp

lemma loop_skip_newline:
  "tableRowLoop (CHR 0x0A # s) acc = tableRowLoop s acc"
proof (rule loop_same_exec)
  have "bt tableRowRegex (CHR 0x0A # s) (CHR 0x0A # s) [] = None"
    by (simp add: tableRowRegex_def lit_def)
  then show "exec tableRowRegex (CHR 0x0A # s) = exec tableRowRegex s" by (rule exec_step)
qed

lemma loop_Nil: "tableRowLoop [] acc = acc"
  by (subst tableRowLoop.simps) (simp add: tableRowRegex_def)

lemma row_cells_barless:
  assumes "valid_row (t, d, p) \<or> bad_priority_row (t, d, p)"
  shows "CHR ''|'' \<notin> set t" and "CHR ''|'' \<notin> set d"
  using assms by (auto simp: valid_row_def bad_priority_row_def)

lemma loop_rows:
  assumes "\<forall>r\<in>set (r0 # rest). valid_row r \<or> bad_priority_row r" and "well_separated (r0 # rest)"
  shows "tableRowLoop (render_row r0 @ render_table rest) acc = acc @ spec_tickets (filter valid_row (r0 # rest))"
  using assms
proof (induction rest arbitrary: r0 acc)
  case Nil
  obtain t d p where r: "r0 = (t, d, p)" by (cases r0)
  show ?case
  proof (cases "valid_row (t, d, p)")
    case True
    then show ?thesis
      using loop_row(1) [OF True, of "[]" acc]
      by (simp add: r render_table_def loop_Nil spec_tickets_Cons) (simp add: spec_tickets_def)
  next
    case False
    with Nil.prems r have bad: "bad_priority_row (t, d, p)" by simp
    have "tableRowLoop (render_row (t, d, p)) acc = acc"
      by (subst tableRowLoop.simps) (simp add: bad_row_exec [OF bad] del: exec.simps)
    with False show ?thesis by (simp add: r render_table_def spec_tickets_def)
  qed
next
  case (Cons r1 rest)
  obtain t d p where r: "r0 = (t, d, p)" by (cases r0)
  obtain t' d' p' where r1: "r1 = (t', d', p')" by (cases r1)
  from Cons.prems have all1: "\<forall>r\<in>set (r1 # rest). valid_row r \<or> bad_priority_row r"
    and sep1: "well_separated (r1 # rest)" by simp_all
  note IH = Cons.IH [OF all1 sep1]
  have tab: "render_table (r1 # rest) = CHR 0x0A # render_row r1 @ render_table rest"
    by (simp add: render_table_def)
  show ?case
  proof (cases "valid_row (t, d, p)")
    case True
    have "tableRowLoop (render_row r0 @ render_table (r1 # rest)) acc =
            tableRowLoop (render_row r1 @ render_table rest)
              (acc @ (if is_header_row (title_text t) then [] else [makeTicket (title_text t) d p]))"
      using loop_row(1) [OF True, of "CHR 0x0A # render_row r1 @ render_table rest" acc]
      by (simp add: r tab loop_skip_newline)
    then show ?thesis using True IH by (simp add: r spec_tickets_Cons)
  next
    case False
    with Cons.prems r have bad: "bad_priority_row (t, d, p)" by simp
    from Cons.prems bad r r1 have g: "\<not> one_word t'" "\<not> one_word d'" by simp_all
    from all1 r1 have "valid_row (t', d', p') \<or> bad_priority_row (t', d', p')" by simp
    note b = row_cells_barless [OF this]
    have next_row: "render_row r1 @ render_table rest =
            CHR ''|'' # t' @ CHR ''|'' # d' @ CHR ''|'' # (p' @ CHR ''|'' # render_table rest)"
      by (simp add: r1 render_row_def)
    have "exec tableRowRegex (render_row (t, d, p) @ CHR 0x0A # render_row r1 @ render_table rest) =
            exec tableRowRegex (render_row r1 @ render_table rest)"
      unfolding next_row by (rule exec_bad_row_then [OF bad b g])
    then have "tableRowLoop (render_row (t, d, p) @ CHR 0x0A # render_row r1 @ render_table rest) acc =
                 tableRowLoop (render_row r1 @ render_table rest) acc"
      by (rule loop_same_exec)
    then have "tableRowLoop (render_row r0 @ render_table (r1 # rest)) acc =
                 tableRowLoop (render_row r1 @ render_table rest) acc"
      by (simp only: r tab)
    then show ?thesis using False IH by (simp add: r)
  qed
qed

lemma rows_on_lines:
  assumes "valid_row r \<or> bad_priority_row r"
  shows "\<forall>c\<in>set (render_row r). c \<noteq> CHR 0x0A"
  using assms render_row_line bad_row_line by blast

lemma parse_rows:
  assumes "heading_free pre" and "rows \<noteq> []"
    and "\<forall>r\<in>set rows. valid_row r \<or> bad_priority_row r" and "well_separated rows"
    and "post = [] \<or> starts_with [CHR 0x0A, CHR ''#'', CHR ''#'', CHR '' ''] post"
  shows "parseTicketsFromSummary (pre @ ''## Suggested Tickets'' @ render_table rows @ post) =
           spec_tickets (filter valid_row rows)"
proof -
  from assms(2) obtain r rest where rows: "rows = r # rest" by (cases rows) auto
  from assms(3) rows have "valid_row r \<or> bad_priority_row r" by simp
  then have l0: "\<forall>c\<in>set (render_row r). c \<noteq> CHR 0x0A" by (rule rows_on_lines)
  have ls: "\<forall>r\<in>set rest. \<forall>c\<in>set (render_row r). c \<noteq> CHR 0x0A"
  proof
    fix r' assume "r' \<in> set rest"
    with assms(3) rows have "valid_row r' \<or> bad_priority_row r'" by simp
    then show "\<forall>c\<in>set (render_row r'). c \<noteq> CHR 0x0A" by (rule rows_on_lines)
  qed
  have "exec ticketSectionRegex (pre @ ''## Suggested Tickets'' @ render_table (r # rest) @ post) =
          Some ([render_row r @ render_table rest], post)"
    by (rule section_match [OF assms(1) l0 ls assms(5)])
  then have "parseTicketsFromSummary (pre @ ''## Suggested Tickets'' @ render_table rows @ post) =
          tableRowLoop (render_row r @ render_table rest) []"
    unfolding parseTicketsFromSummary_def rows by (simp del: exec.simps)
  also have "\<dots> = spec_tickets (filter valid_row rows)"
    using loop_rows [of r rest "[]"] assms(3,4) unfolding rows by simp
  finally show ?thesis .
qed

lemma bad_row_not_valid: "bad_priority_row r \<Longrightarrow> \<not> valid_row r"
  by (cases r) (auto simp: bad_priority_row_def valid_row_def)

text \<open>
  Where the matches of the row pattern are the rows of the table, the parser returns one
  ticket per valid row. The summary has the heading, written \<^verbatim>\<open>## Suggested Tickets\<close> and
  with no occurrence of it in any letter case before, then a table, then the end of the text
  or the next level-2 heading; every row of the table stands on a line of its own and is a
  valid row or a row that the row pattern cannot match (its priority cell is not a single
  word: a separator row, for one); and every row after a row that the pattern cannot match
  has a title cell and a description cell that are not single words. Then the parser returns
  one ticket per valid row that is not a header row, in row order, with the text of the title
  and the description trimmed, the priority lower-cased and replaced by \<^verbatim>\<open>medium\<close>
  exactly when it is not one of the five priorities, and the status \<^verbatim>\<open>backlog\<close>.
\<close>

theorem one_ticket_per_valid_row:
  assumes "heading_free pre" and "rows \<noteq> []"
    and "\<forall>r\<in>set rows. valid_row r \<or> bad_priority_row r" and "well_separated rows"
    and "post = [] \<or> starts_with [CHR 0x0A, CHR ''#'', CHR ''#'', CHR '' ''] post"
  shows "parseTicketsFromSummary (pre @ ''## Suggested Tickets'' @ render_table rows @ post) =
           spec_tickets (filter valid_row rows)"
  using assms by (rule parse_rows)

text \<open>
  A table with a header row, a separator row, a row with a title in bold and a priority in
  upper case, and a row with an unknown priority.
\<close>

theorem one_ticket_per_valid_row_witness:
  "parseTicketsFromSummary
     (''# Notes'' @ [CHR 0x0A] @ ''## Suggested Tickets'' @ render_table example_rows @
      [CHR 0x0A] @ ''## Next'') =
   [\<lparr> p_board_id = None, p_title = Some ''Fix login'', p_description = Some ''Users cannot log in'',
      p_status = Some ''backlog'', p_priority = Some ''high'', p_assignee_id = None,
      p_reporter_id = None, p_due_date = None, p_estimated_hours = None, p_label_ids = None \<rparr>,
    \<lparr> p_board_id = None, p_title = Some ''Add docs'', p_description = Some [],
      p_status = Some ''backlog'', p_priority = Some ''medium'', p_assignee_id = None,
      p_reporter_id = None, p_due_date = None, p_estimated_hours = None, p_label_ids = None \<rparr>]"
proof -
  have h1: "heading_free (''# Notes'' @ [CHR 0x0A])" by code_simp
  have h2: "example_rows \<noteq> []" by (simp add: example_rows_def)
  have h3: "\<forall>r\<in>set example_rows. valid_row r \<or> bad_priority_row r" by code_simp
  have h4: "well_separated example_rows" by code_simp
  have h5: "[CHR 0x0A] @ ''## Next'' = [] \<or> starts_with [CHR 0x0A, CHR ''#'', CHR ''#'', CHR '' ''] ([CHR 0x0A] @ ''## Next'')"
    by code_simp
  have e: "spec_tickets (filter valid_row example_rows) =
   [\<lparr> p_board_id = None, p_title = Some ''Fix login'', p_description = Some ''Users cannot log in'',
      p_status = Some ''backlog'', p_priority = Some ''high'', p_assignee_id = None,
      p_reporter_id = None, p_due_date = None, p_estimated_hours = None, p_label_ids = None \<rparr>,
    \<lparr> p_board_id = None, p_title = Some ''Add docs'', p_description = Some [],
      p_status = Some ''backlog'', p_priority = Some ''medium'', p_assignee_id = None,
      p_reporter_id = None, p_due_date = None, p_estimated_hours = None, p_label_ids = None \<rparr>]"
    by code_simp
  from one_ticket_per_valid_row [OF h1 h2 h3 h4 h5] e show ?thesis by simp
qed

text \<open>
  For a row whose priority cell is not a single word of letters, digits
  and underscores, the row pattern has no match that starts at the row, whatever follows it:
  no ticket carries the title and the description of the row with a defaulted priority. In a
  table whose other rows are valid rows or rows of this kind, the parser drops the row
  silently and returns the tickets of the valid rows, provided that the row, and every other
  row of its kind, is the last row or is followed by a row whose title cell and description
  cell are not single words.
\<close>

theorem bad_priority_row_dropped:
  assumes "bad_priority_row (t, d, p)" and "heading_free pre"
    and "\<forall>r\<in>set (before @ after). valid_row r \<or> bad_priority_row r"
    and "well_separated (before @ (t, d, p) # after)"
    and "post = [] \<or> starts_with [CHR 0x0A, CHR ''#'', CHR ''#'', CHR '' ''] post"
  shows "bt tableRowRegex (render_row (t, d, p) @ R) st cs = None \<and>
         parseTicketsFromSummary
           (pre @ ''## Suggested Tickets'' @ render_table (before @ (t, d, p) # after) @ post) =
         spec_tickets (filter valid_row (before @ after))"
proof
  show "bt tableRowRegex (render_row (t, d, p) @ R) st cs = None"
    by (rule bad_row_no_match [OF assms(1)])
  have rows: "\<forall>r\<in>set (before @ (t, d, p) # after). valid_row r \<or> bad_priority_row r"
  proof
    fix r assume "r \<in> set (before @ (t, d, p) # after)"
    then consider "r \<in> set (before @ after)" | "r = (t, d, p)" by auto
    then show "valid_row r \<or> bad_priority_row r"
    proof cases
      case 1
      with assms(3) show ?thesis by blast
    next
      case 2
      with assms(1) show ?thesis by simp
    qed
  qed
  have "filter valid_row (before @ (t, d, p) # after) = filter valid_row (before @ after)"
    using bad_row_not_valid [OF assms(1)] by simp
  then show "parseTicketsFromSummary
           (pre @ ''## Suggested Tickets'' @ render_table (before @ (t, d, p) # after) @ post) =
         spec_tickets (filter valid_row (before @ after))"
    using parse_rows [OF assms(2) _ rows assms(4) assms(5)] by simp
qed

text \<open>A row with the priority cell \<^verbatim>\<open>very high\<close> between two valid rows.\<close>

theorem bad_priority_row_dropped_witness:
  "bt tableRowRegex (render_row ('' Add tests '', '' Cover the parser '', '' very high '') @
      [CHR 0x0A] @ ''| Docs | Write docs | low |'') [] [] = None \<and>
   parseTicketsFromSummary
     (''# Notes'' @ [CHR 0x0A] @ ''## Suggested Tickets'' @
      render_table ([('' Fix login '', '' Users cannot log in '', '' high '')] @
                    ('' Add tests '', '' Cover the parser '', '' very high '') #
                    [('' Write docs '', '' Explain the setup '', '' low '')]) @
      [CHR 0x0A] @ ''## Next'') =
   [\<lparr> p_board_id = None, p_title = Some ''Fix login'', p_description = Some ''Users cannot log in'',
      p_status = Some ''backlog'', p_priority = Some ''high'', p_assignee_id = None,
      p_reporter_id = None, p_due_date = None, p_estimated_hours = None, p_label_ids = None \<rparr>,
    \<lparr> p_board_id = None, p_title = Some ''Write docs'', p_description = Some ''Explain the setup'',
      p_status = Some ''backlog'', p_priority = Some ''low'', p_assignee_id = None,
      p_reporter_id = None, p_due_date = None, p_estimated_hours = None, p_label_ids = None \<rparr>]"
proof -
  let ?before = "[('' Fix login '', '' Users cannot log in '', '' high '')]"
  let ?after = "[('' Write docs '', '' Explain the setup '', '' low '')]"
  have h1: "bad_priority_row ('' Add tests '', '' Cover the parser '', '' very high '')" by code_simp
  have h2: "heading_free (''# Notes'' @ [CHR 0x0A])" by code_simp
  have h3: "\<forall>r\<in>set (?before @ ?after). valid_row r \<or> bad_priority_row r" by code_simp
  have h4: "well_separated (?before @ ('' Add tests '', '' Cover the parser '', '' very high '') # ?after)"
    by code_simp
  have h5: "[CHR 0x0A] @ ''## Next'' = [] \<or>
            starts_with [CHR 0x0A, CHR ''#'', CHR ''#'', CHR '' ''] ([CHR 0x0A] @ ''## Next'')"
    by code_simp
  have e: "spec_tickets (filter valid_row (?before @ ?after)) =
   [\<lparr> p_board_id = None, p_title = Some ''Fix login'', p_description = Some ''Users cannot log in'',
      p_status = Some ''backlog'', p_priority = Some ''high'', p_assignee_id = None,
      p_reporter_id = None, p_due_date = None, p_estimated_hours = None, p_label_ids = None \<rparr>,
    \<lparr> p_board_id = None, p_title = Some ''Write docs'', p_description = Some ''Explain the setup'',
      p_status = Some ''backlog'', p_priority = Some ''low'', p_assignee_id = None,
      p_reporter_id = None, p_due_date = None, p_estimated_hours = None, p_label_ids = None \<rparr>]"
    by code_simp
  from bad_priority_row_dropped [OF h1 h2 h3 h4 h5, of "[CHR 0x0A] @ ''| Docs | Write docs | low |''" "[]" "[]"] e
  show ?thesis by simp
qed

section \<open>The claims about the summary parser\<close>

text \<open>
  C1. One ticket per matching data row, in row order: the parser does not return that on a
  table with a separator row followed by a row whose title is a single word. The cell classes
  of the row pattern accept line breaks, so the last cell of the separator row, the line
  break and the title of the next row are matched as title, description and priority; the
  match is skipped as a separator and the scan goes on inside the row, which is lost. Of the
  rows \<^verbatim>\<open>Refactor\<close> and \<^verbatim>\<open>Fix login\<close> of the first table the parser returns the second
  only, and of the table with the row \<^verbatim>\<open>Refactor\<close> alone it returns nothing.
\<close>

theorem separator_row_loses_data_row:
  "parseTicketsFromSummary
     (''## Suggested Tickets'' @ [CHR 0x0A] @ ''| Title | Description | Priority |'' @ [CHR 0x0A] @
      ''|---|---|---|'' @ [CHR 0x0A] @ ''| Refactor | Clean up the parser | high |'' @ [CHR 0x0A] @
      ''| Fix login | Users cannot log in | urgent |'') =
   [\<lparr> p_board_id = None, p_title = Some ''Fix login'', p_description = Some ''Users cannot log in'',
      p_status = Some ''backlog'', p_priority = Some ''urgent'', p_assignee_id = None,
      p_reporter_id = None, p_due_date = None, p_estimated_hours = None, p_label_ids = None \<rparr>] \<and>
   parseTicketsFromSummary
     (''## Suggested Tickets'' @ [CHR 0x0A] @ ''| Title | Description | Priority |'' @ [CHR 0x0A] @
      ''|---|---|---|'' @ [CHR 0x0A] @ ''| Refactor | Clean up the parser | high |'') = []"
  by code_simp

text \<open>
  C5 (as amended). When the text \<^verbatim>\<open>## Suggested Tickets\<close> does not occur anywhere in
  the summary in any letter case, at the start of a line or inside one, the parser returns the
  empty list; so it does on the empty summary. The parser is a total function: it returns a
  list and raises nothing.
\<close>

theorem no_heading_no_tickets:
  "(\<not> includes_str (toLowerCase s) ''## suggested tickets'' \<longrightarrow> parseTicketsFromSummary s = []) \<and>
   parseTicketsFromSummary [] = []"
proof
  show "\<not> includes_str (toLowerCase s) ''## suggested tickets'' \<longrightarrow> parseTicketsFromSummary s = []"
    by (simp add: parseTicketsFromSummary_def section_needs_heading)
  have "\<not> includes_str (toLowerCase []) ''## suggested tickets''" by (simp add: toLowerCase_def)
  then have "exec ticketSectionRegex [] = None" by (rule section_needs_heading)
  then show "parseTicketsFromSummary [] = []"
    by (simp add: parseTicketsFromSummary_def del: exec.simps)
qed

text \<open>A summary with a table and no heading.\<close>

theorem no_heading_no_tickets_witness:
  "\<not> includes_str (toLowerCase (''# Notes'' @ [CHR 0x0A] @ ''| Fix login | Users cannot log in | high |''))
       ''## suggested tickets'' \<and>
   parseTicketsFromSummary (''# Notes'' @ [CHR 0x0A] @ ''| Fix login | Users cannot log in | high |'') = [] \<and>
   parseTicketsFromSummary [] = []"
proof -
  have h: "\<not> includes_str (toLowerCase (''# Notes'' @ [CHR 0x0A] @ ''| Fix login | Users cannot log in | high |''))
             ''## suggested tickets''"
    by code_simp
  from no_heading_no_tickets [of "''# Notes'' @ [CHR 0x0A] @ ''| Fix login | Users cannot log in | high |''"] h
  show ?thesis by simp
qed

text \<open>
  The claim as stated fails when the text of the heading stands inside a line: the section
  pattern has no line anchor, and the summary below, which has no heading, gives a ticket.
\<close>

theorem no_heading_no_tickets_counterexample:
  "parseTicketsFromSummary (''See ## Suggested Tickets'' @ [CHR 0x0A] @ ''| a b | c d | low |'') =
   [\<lparr> p_board_id = None, p_title = Some ''a b'', p_description = Some ''c d'',
      p_status = Some ''backlog'', p_priority = Some ''low'', p_assignee_id = None,
      p_reporter_id = None, p_due_date = None, p_estimated_hours = None, p_label_ids = None \<rparr>]"
  by code_simp

text \<open>
  C6 (as amended). The tickets returned are those of the matches of the row pattern in the
  section whose title cell neither contains \<^verbatim>\<open>title\<close> in any letter case nor contains
  three dashes in a row, in the order of the matches: every match whose title cell contains
  \<^verbatim>\<open>title\<close> or \<^verbatim>\<open>---\<close> is excluded. No ticket of the output has such a title.
\<close>

theorem header_rows_excluded:
  "parseTicketsFromSummary s =
     map (\<lambda>(title, description, priority). makeTicket title description priority)
         (kept_rows (case ticketSection s of None \<Rightarrow> [] | Some section \<Rightarrow> tableRowMatches section)) \<and>
   (\<forall>k\<in>set (parseTicketsFromSummary s). \<forall>title. p_title k = Some title \<longrightarrow>
      \<not> includes_str (toLowerCase title) ''title'' \<and> \<not> includes_str title ''---'')"
proof -
  have a: "parseTicketsFromSummary s =
     map (\<lambda>(title, description, priority). makeTicket title description priority)
         (kept_rows (case ticketSection s of None \<Rightarrow> [] | Some section \<Rightarrow> tableRowMatches section))"
    unfolding parseTicketsFromSummary_def ticketSection_def
    by (auto simp: loop_matches kept_rows_def split: option.splits list.splits)
  have "\<not> includes_str (toLowerCase title) ''title'' \<and> \<not> includes_str title ''---''"
    if "k \<in> set (parseTicketsFromSummary s)" and "p_title k = Some title" for k title
  proof -
    from that(1) obtain t d p where k: "k = makeTicket t d p" and "\<not> is_header_row t"
      unfolding a kept_rows_def is_header_row_def by auto
    with that(2) header_trim [of t] show ?thesis by (simp add: makeTicket_def Let_def)
  qed
  with a show ?thesis by blast
qed

text \<open>A header row, a row whose title holds three dashes and a data row.\<close>

theorem header_rows_excluded_witness:
  "parseTicketsFromSummary
     (''## Suggested Tickets'' @ [CHR 0x0A] @ ''| Title | Description | Priority |'' @ [CHR 0x0A] @
      ''| a---b | Dashes | low |'' @ [CHR 0x0A] @ ''| Fix login | Users cannot log in | high |'') =
   [\<lparr> p_board_id = None, p_title = Some ''Fix login'', p_description = Some ''Users cannot log in'',
      p_status = Some ''backlog'', p_priority = Some ''high'', p_assignee_id = None,
      p_reporter_id = None, p_due_date = None, p_estimated_hours = None, p_label_ids = None \<rparr>]"
proof -
  have e: "map (\<lambda>(title, description, priority). makeTicket title description priority)
         (kept_rows (case ticketSection
            (''## Suggested Tickets'' @ [CHR 0x0A] @ ''| Title | Description | Priority |'' @ [CHR 0x0A] @
      ''| a---b | Dashes | low |'' @ [CHR 0x0A] @ ''| Fix login | Users cannot log in | high |'') of
              None \<Rightarrow> [] | Some section \<Rightarrow> tableRowMatches section)) =
   [\<lparr> p_board_id = None, p_title = Some ''Fix login'', p_description = Some ''Users cannot log in'',
      p_status = Some ''backlog'', p_priority = Some ''high'', p_assignee_id = None,
      p_reporter_id = None, p_due_date = None, p_estimated_hours = None, p_label_ids = None \<rparr>]"
    by code_simp
  from header_rows_excluded
    [of "''## Suggested Tickets'' @ [CHR 0x0A] @ ''| Title | Description | Priority |'' @ [CHR 0x0A] @
      ''| a---b | Dashes | low |'' @ [CHR 0x0A] @ ''| Fix login | Users cannot log in | high |''"] e
  show ?thesis by simp
qed

text \<open>
  The claim as stated fails for a title cell of one or two dashes: the row is kept.
\<close>

theorem header_rows_excluded_counterexample:
  "parseTicketsFromSummary (''## Suggested Tickets'' @ [CHR 0x0A] @ ''| -- | Separator | low |'') =
   [\<lparr> p_board_id = None, p_title = Some ''--'', p_description = Some ''Separator'',
      p_status = Some ''backlog'', p_priority = Some ''low'', p_assignee_id = None,
      p_reporter_id = None, p_due_date = None, p_estimated_hours = None, p_label_ids = None \<rparr>]"
  by code_simp

text \<open>
  C10. A row whose priority cell is not a single word is dropped entirely and silently: the
  parser does not do that when a row with a one-word title follows. The priority cell of the
  row, the line break and the title cell of the next row are matched as title, description
  and priority: a ticket with the title \<^verbatim>\<open>very high\<close>, an empty description and the
  priority \<^verbatim>\<open>medium\<close> is returned, and the row \<^verbatim>\<open>c\<close> is lost.
\<close>

theorem bad_priority_row_takes_next_row:
  "parseTicketsFromSummary
     (''## Suggested Tickets'' @ [CHR 0x0A] @ ''| a | b | very high |'' @ [CHR 0x0A] @ ''| c | d | low |'') =
   [\<lparr> p_board_id = None, p_title = Some ''very high'', p_description = Some [],
      p_status = Some ''backlog'', p_priority = Some ''medium'', p_assignee_id = None,
      p_reporter_id = None, p_due_date = None, p_estimated_hours = None, p_label_ids = None \<rparr>]"
  by code_simp

section \<open>The remote client\<close>

text \<open>
  A parsed JSON value. \<open>truthy\<close> is the truth value JavaScript gives to a value in
  \<^verbatim>\<open>a || b\<close>, with \<open>None\<close> for \<^verbatim>\<open>undefined\<close>; \<open>property\<close> reads a property:
  reading one of \<^verbatim>\<open>null\<close> throws, a value that is not an object has none.
\<close>

datatype json =
    JNull
  | JBool bool
  | JNum int
  | JStr string
  | JArr "json list"
  | JObj "(string \<times> json) list"

fun truthy :: "json option \<Rightarrow> bool" where
  "truthy None = False"
| "truthy (Some JNull) = False"
| "truthy (Some (JBool b)) = b"
| "truthy (Some (JNum n)) = (n \<noteq> 0)"
| "truthy (Some (JStr s)) = (s \<noteq> [])"
| "truthy (Some (JArr xs)) = True"
| "truthy (Some (JObj kvs)) = True"

text \<open>
  Everything the service throws: \<^verbatim>\<open>new Error(message)\<close> with a message that is a
  string (\<open>Error\<close>) or another value taken from a response (\<open>ErrorOf\<close>: the message of
  the error is the conversion of that value to a string, which is not computed here), the
  \<^verbatim>\<open>TypeError\<close> of a property read on \<^verbatim>\<open>null\<close>, the \<^verbatim>\<open>SyntaxError\<close> of
  \<^verbatim>\<open>response.json()\<close> on a body that is not JSON, and a rejected \<^verbatim>\<open>fetch\<close>.
\<close>

datatype error =
    Error string
  | ErrorOf "json option"
  | TypeError
  | SyntaxError
  | FetchFailed string

fun message_error :: "json option \<Rightarrow> error" where
  "message_error (Some (JStr s)) = Error s"
| "message_error v = ErrorOf v"

fun property :: "json \<Rightarrow> string \<Rightarrow> error + json option" where
  "property JNull k = Inl TypeError"
| "property (JObj kvs) k = Inr (map_of kvs k)"
| "property j k = Inr None"

text \<open>
  A call of \<^verbatim>\<open>fetch\<close>: the URL, the options of the caller (\<^verbatim>\<open>method\<close> and
  \<^verbatim>\<open>body\<close>, as \<open>req_method\<close> and \<open>req_body\<close>; the body is \<^verbatim>\<open>JSON.stringify(issue)\<close>, kept as the issue) and the
  headers. No caller of \<^verbatim>\<open>request\<close> passes headers of its own.
\<close>

record CreateIssueRequest =
  board_id :: int
  title :: string
  description :: "string option"
  status :: "string option"
  priority :: "string option"
  assignee_id :: "int option"
  reporter_id :: int
  due_date :: "string option"
  estimated_hours :: "int option"
  label_ids :: "int list option"

record RequestInit =
  req_method :: "string option"
  req_body :: "CreateIssueRequest option"

record Request =
  url :: string
  init :: RequestInit
  headers :: "(string \<times> string) list"

record Response =
  http_status :: nat
  json_body :: "json option"

definition ok :: "Response \<Rightarrow> bool" where
  "ok response \<longleftrightarrow> 200 \<le> http_status response \<and> http_status response \<le> 299"

text \<open>
  The remote side is a parameter: a function from the requests dispatched so far and the
  current request to the outcome of \<^verbatim>\<open>fetch\<close>. The browser state holds the local
  storage (\<open>None\<close> where \<^verbatim>\<open>typeof window === 'undefined'\<close>) and the log of the
  requests dispatched, in order.
\<close>

datatype FetchResult = Rejected string | Resolved Response

type_synonym remote = "Request list \<Rightarrow> Request \<Rightarrow> FetchResult"

record Browser =
  localStorage :: "(string \<rightharpoonup> string) option"
  sent :: "Request list"

text \<open>
  Numbers in template literals, for integers: the decimal digits. (JavaScript prints a number
  from \<^verbatim>\<open>1e21\<close> on in exponent notation and a number that is not integral with a
  fraction; identifiers and status codes of that kind are not modelled.)
\<close>

definition digit_char :: "nat \<Rightarrow> char" where
  "digit_char d = char_of (48 + d)"

function show_nat :: "nat \<Rightarrow> string" where
  "show_nat n = (if n < 10 then [digit_char n] else show_nat (n div 10) @ [digit_char (n mod 10)])"
  by pat_completeness auto
termination
  by (relation "measure id") auto

definition show_int :: "int \<Rightarrow> string" where
  "show_int i = (if i < 0 then CHR ''-'' # show_nat (nat (- i)) else show_nat (nat i))"

text \<open>
  The error thrown for a response that is not \<^verbatim>\<open>ok\<close>:
  \<^verbatim>\<open>new Error(error.message || `ETT API error: ${response.status}`)\<close>, where
  \<^verbatim>\<open>error\<close> is the parsed body, or \<^verbatim>\<open>{ message: 'Unknown error' }\<close> when the body
  does not parse.
\<close>

definition error_of_response :: "Response \<Rightarrow> error" where
  "error_of_response response =
     (case json_body response of
        None \<Rightarrow> Error ''Unknown error''
      | Some err \<Rightarrow>
          (case property err ''message'' of
             Inl e \<Rightarrow> e
           | Inr m \<Rightarrow>
               if truthy m then message_error m
               else Error (''ETT API error: '' @ show_nat (http_status response))))"

text \<open>\<^verbatim>\<open>const result = await this.request(...); return result.data\<close>\<close>

definition data_of :: "(error + json) \<times> 's \<Rightarrow> (error + json option) \<times> 's" where
  "data_of r =
     (case r of
        (Inl e, st) \<Rightarrow> (Inl e, st)
      | (Inr result, st) \<Rightarrow> (property result ''data'', st))"

text \<open>
  The body of \<^verbatim>\<open>createIssues\<close>, the same text in both services:
  \<^verbatim>\<open>for (const issue of issues) { const created = await this.createIssue(issue); results.push(created); }\<close>
\<close>

fun createIssues_loop ::
  "(CreateIssueRequest \<Rightarrow> 's \<Rightarrow> (error + 'r) \<times> 's) \<Rightarrow> CreateIssueRequest list \<Rightarrow> 'r list \<Rightarrow> 's
     \<Rightarrow> (error + 'r list) \<times> 's" where
  "createIssues_loop create [] results st = (Inr results, st)"
| "createIssues_loop create (issue # issues) results st =
     (case create issue st of
        (Inl e, st') \<Rightarrow> (Inl e, st')
      | (Inr created, st') \<Rightarrow> createIssues_loop create issues (results @ [created]) st')"

subsection \<open>Login-based service\<close>

definition ETT_AUTH_KEY :: string where
  "ETT_AUTH_KEY = ''ett_auth''"

record ETTAuthState =
  accessToken :: string
  refreshToken :: "string option"
  userId :: int
  userName :: string
  expiresAt :: "int option"

record ETTService = Browser +
  apiUrl :: string
  auth :: "ETTAuthState option"

definition hasApiUrl :: "ETTService \<Rightarrow> bool" where
  "hasApiUrl this \<longleftrightarrow> apiUrl this \<noteq> []"

definition isAuthenticated :: "ETTService \<Rightarrow> bool" where
  "isAuthenticated this \<longleftrightarrow> (case auth this of None \<Rightarrow> False | Some a \<Rightarrow> accessToken a \<noteq> [])"

record AuthStateView =
  view_isAuthenticated :: bool
  view_userName :: "string option"
  view_userId :: "int option"

definition getAuthState :: "ETTService \<Rightarrow> AuthStateView" where
  "getAuthState this =
     \<lparr> view_isAuthenticated = isAuthenticated this,
       view_userName = map_option userName (auth this),
       view_userId = map_option userId (auth this) \<rparr>"

definition getApiUrl :: "ETTService \<Rightarrow> string" where
  "getApiUrl this = apiUrl this"

definition logout :: "ETTService \<Rightarrow> ETTService" where
  "logout this =
     this\<lparr> auth := None,
           localStorage := map_option (\<lambda>m. m(ETT_AUTH_KEY := None)) (localStorage this) \<rparr>"

definition getHeaders :: "ETTService \<Rightarrow> error + (string \<times> string) list" where
  "getHeaders this =
     (case auth this of
        None \<Rightarrow> Inl (Error ''Not authenticated. Please login first.'')
      | Some a \<Rightarrow>
          if accessToken a = [] then Inl (Error ''Not authenticated. Please login first.'')
          else Inr [(''Content-Type'', ''application/json''),
                    (''Authorization'', ''Bearer '' @ accessToken a)])"

definition request :: "remote \<Rightarrow> string \<Rightarrow> RequestInit \<Rightarrow> ETTService \<Rightarrow> (error + json) \<times> ETTService" where
  "request net endpoint options this =
     (if apiUrl this = [] then (Inl (Error ''API URL not configured. Check .env file.''), this)
      else if \<not> isAuthenticated this then (Inl (Error ''Not authenticated. Please login first.''), this)
      else
        (case getHeaders this of
           Inl e \<Rightarrow> (Inl e, this)
         | Inr hs \<Rightarrow>
             (let req = \<lparr> url = apiUrl this @ endpoint, init = options, headers = hs \<rparr>;
                  this1 = this\<lparr> sent := sent this @ [req] \<rparr>
              in case net (sent this) req of
                   Rejected msg \<Rightarrow> (Inl (FetchFailed msg), this1)
                 | Resolved response \<Rightarrow>
                     if http_status response = 401
                     then (Inl (Error ''Session expired. Please login again.''), logout this1)
                     else if \<not> ok response then (Inl (error_of_response response), this1)
                     else (case json_body response of
                             None \<Rightarrow> (Inl SyntaxError, this1)
                           | Some j \<Rightarrow> (Inr j, this1)))))"

text \<open>The default \<^verbatim>\<open>options = {}\<close>.\<close>

definition noInit :: RequestInit where
  "noInit = \<lparr> req_method = None, req_body = None \<rparr>"

definition getBoards :: "remote \<Rightarrow> ETTService \<Rightarrow> (error + json option) \<times> ETTService" where
  "getBoards net this = data_of (request net ''/issue-tracker/boards'' noInit this)"

definition getTeamMembers :: "remote \<Rightarrow> ETTService \<Rightarrow> (error + json option) \<times> ETTService" where
  "getTeamMembers net this = data_of (request net ''/issue-tracker/team-members'' noInit this)"

definition getLabels :: "remote \<Rightarrow> int \<Rightarrow> ETTService \<Rightarrow> (error + json option) \<times> ETTService" where
  "getLabels net boardId this =
     data_of (request net (''/issue-tracker/boards/'' @ show_int boardId @ ''/labels'') noInit this)"

definition createIssue :: "remote \<Rightarrow> CreateIssueRequest \<Rightarrow> ETTService \<Rightarrow> (error + json option) \<times> ETTService" where
  "createIssue net issue this =
     data_of (request net ''/issue-tracker/issues'' \<lparr> req_method = Some ''POST'', req_body = Some issue \<rparr> this)"

definition createIssues :: "remote \<Rightarrow> CreateIssueRequest list \<Rightarrow> ETTService \<Rightarrow> (error + json option list) \<times> ETTService" where
  "createIssues net issues this = createIssues_loop (createIssue net) issues [] this"

subsection \<open>Configuration-based service\<close>

definition ETT_CONFIG_KEY :: string where
  "ETT_CONFIG_KEY = ''ett_config''"

record ETTConfig =
  config_apiUrl :: string
  config_accessToken :: string
  defaultBoardId :: "int option"
  defaultReporterId :: "int option"

text \<open>
  \<^verbatim>\<open>JSON.stringify\<close> on a configuration is a parameter of \<open>configure\<close>.
\<close>

record ETTService_cfg = Browser +
  config :: "ETTConfig option"

definition configure :: "(ETTConfig \<Rightarrow> string) \<Rightarrow> ETTConfig \<Rightarrow> ETTService_cfg \<Rightarrow> ETTService_cfg" where
  "configure JSON_stringify cfg this =
     this\<lparr> config := Some cfg,
           localStorage := map_option (\<lambda>m. m(ETT_CONFIG_KEY \<mapsto> JSON_stringify cfg)) (localStorage this) \<rparr>"

definition clearConfig :: "ETTService_cfg \<Rightarrow> ETTService_cfg" where
  "clearConfig this =
     this\<lparr> config := None,
           localStorage := map_option (\<lambda>m. m(ETT_CONFIG_KEY := None)) (localStorage this) \<rparr>"

definition isConfigured :: "ETTService_cfg \<Rightarrow> bool" where
  "isConfigured this \<longleftrightarrow>
     (case config this of
        None \<Rightarrow> False
      | Some c \<Rightarrow> config_apiUrl c \<noteq> [] \<and> config_accessToken c \<noteq> [])"

record ConfigView =
  view_apiUrl :: string
  view_defaultBoardId :: "int option"
  view_defaultReporterId :: "int option"
  view_hasToken :: bool

definition getConfig :: "ETTService_cfg \<Rightarrow> ConfigView option" where
  "getConfig this =
     (case config this of
        None \<Rightarrow> None
      | Some c \<Rightarrow>
          Some \<lparr> view_apiUrl = config_apiUrl c,
                 view_defaultBoardId = defaultBoardId c,
                 view_defaultReporterId = defaultReporterId c,
                 view_hasToken = (config_accessToken c \<noteq> []) \<rparr>)"

definition getHeaders_cfg :: "ETTService_cfg \<Rightarrow> error + (string \<times> string) list" where
  "getHeaders_cfg this =
     (case config this of
        None \<Rightarrow> Inl (Error ''ETT Service not configured. Call configure() first.'')
      | Some c \<Rightarrow>
          Inr [(''Content-Type'', ''application/json''),
               (''Authorization'', ''Bearer '' @ config_accessToken c)])"

definition request_cfg :: "remote \<Rightarrow> string \<Rightarrow> RequestInit \<Rightarrow> ETTService_cfg \<Rightarrow> (error + json) \<times> ETTService_cfg" where
  "request_cfg net endpoint options this =
     (case config this of
        None \<Rightarrow> (Inl (Error ''ETT Service not configured. Call configure() first.''), this)
      | Some c \<Rightarrow>
          (case getHeaders_cfg this of
             Inl e \<Rightarrow> (Inl e, this)
           | Inr hs \<Rightarrow>
               (let req = \<lparr> url = config_apiUrl c @ endpoint, init = options, headers = hs \<rparr>;
                    this1 = this\<lparr> sent := sent this @ [req] \<rparr>
                in case net (sent this) req of
                     Rejected msg \<Rightarrow> (Inl (FetchFailed msg), this1)
                   | Resolved response \<Rightarrow>
                       if \<not> ok response then (Inl (error_of_response response), this1)
                       else (case json_body response of
                               None \<Rightarrow> (Inl SyntaxError, this1)
                             | Some j \<Rightarrow> (Inr j, this1)))))"

definition getBoards_cfg :: "remote \<Rightarrow> ETTService_cfg \<Rightarrow> (error + json option) \<times> ETTService_cfg" where
  "getBoards_cfg net this = data_of (request_cfg net ''/issue-tracker/boards'' noInit this)"

definition getTeamMembers_cfg :: "remote \<Rightarrow> ETTService_cfg \<Rightarrow> (error + json option) \<times> ETTService_cfg" where
  "getTeamMembers_cfg net this = data_of (request_cfg net ''/issue-tracker/team-members'' noInit this)"

definition getLabels_cfg :: "remote \<Rightarrow> int \<Rightarrow> ETTService_cfg \<Rightarrow> (error + json option) \<times> ETTService_cfg" where
  "getLabels_cfg net boardId this =
     data_of (request_cfg net (''/issue-tracker/boards/'' @ show_int boardId @ ''/labels'') noInit this)"

definition createIssue_cfg :: "remote \<Rightarrow> CreateIssueRequest \<Rightarrow> ETTService_cfg \<Rightarrow> (error + json option) \<times> ETTService_cfg" where
  "createIssue_cfg net issue this =
     data_of (request_cfg net ''/issue-tracker/issues'' \<lparr> req_method = Some ''POST'', req_body = Some issue \<rparr> this)"

definition createIssues_cfg :: "remote \<Rightarrow> CreateIssueRequest list \<Rightarrow> ETTService_cfg \<Rightarrow> (error + json option list) \<times> ETTService_cfg" where
  "createIssues_cfg net issues this = createIssues_loop (createIssue_cfg net) issues [] this"


definition issue_request :: "string \<Rightarrow> string \<Rightarrow> CreateIssueRequest \<Rightarrow> Request" where
  "issue_request base token issue =
     \<lparr> url = base @ ''/issue-tracker/issues'',
       init = \<lparr> req_method = Some ''POST'', req_body = Some issue \<rparr>,
       headers = [(''Content-Type'', ''application/json''), (''Authorization'', ''Bearer '' @ token)] \<rparr>"

definition token_of :: "ETTService \<Rightarrow> string" where
  "token_of this = (case auth this of None \<Rightarrow> [] | Some a \<Rightarrow> accessToken a)"

definition token_of_cfg :: "ETTService_cfg \<Rightarrow> string" where
  "token_of_cfg this = (case config this of None \<Rightarrow> [] | Some c \<Rightarrow> config_accessToken c)"

definition base_of_cfg :: "ETTService_cfg \<Rightarrow> string" where
  "base_of_cfg this = (case config this of None \<Rightarrow> [] | Some c \<Rightarrow> config_apiUrl c)"

section \<open>Notions used to state the properties of the client\<close>

definition configuration_error :: "error \<Rightarrow> bool" where
  "configuration_error e \<longleftrightarrow>
     e = Error ''API URL not configured. Check .env file.'' \<or>
     e = Error ''Not authenticated. Please login first.'' \<or>
     e = Error ''ETT Service not configured. Call configure() first.''"

definition rejected_unsent :: "(error + 'a) \<times> 's \<Rightarrow> 's \<Rightarrow> bool" where
  "rejected_unsent r this \<longleftrightarrow>
     (case fst r of Inl e \<Rightarrow> configuration_error e | Inr v \<Rightarrow> False) \<and> snd r = this"

definition answered_401 :: "remote \<Rightarrow> Request list \<Rightarrow> nat \<Rightarrow> bool" where
  "answered_401 net log i \<longleftrightarrow>
     (case net (take i log) (log ! i) of
        Resolved response \<Rightarrow> http_status response = 401
      | Rejected msg \<Rightarrow> False)"

definition got_401 :: "remote \<Rightarrow> Request list \<Rightarrow> Request list \<Rightarrow> bool" where
  "got_401 net before after \<longleftrightarrow> list_ex (answered_401 net after) [length before ..< length after]"

definition session_cleared :: "ETTService \<Rightarrow> bool" where
  "session_cleared this \<longleftrightarrow>
     auth this = None \<and> \<not> isAuthenticated this \<and>
     (case localStorage this of None \<Rightarrow> True | Some m \<Rightarrow> m ETT_AUTH_KEY = None)"

definition session_expired :: "(error + 'a) \<times> ETTService \<Rightarrow> bool" where
  "session_expired r \<longleftrightarrow>
     fst r = Inl (Error ''Session expired. Please login again.'') \<and> session_cleared (snd r)"

section \<open>Example inputs\<close>

definition example_issue :: "string \<Rightarrow> CreateIssueRequest" where
  "example_issue t =
     \<lparr> board_id = 1, title = t, description = None, status = Some ''backlog'',
       priority = Some ''medium'', assignee_id = None, reporter_id = 7, due_date = None,
       estimated_hours = None, label_ids = None \<rparr>"

definition example_session :: ETTService where
  "example_session =
     \<lparr> localStorage = Some [ETT_AUTH_KEY \<mapsto> ''stored''], sent = [],
       apiUrl = ''https://ett.example'',
       auth = Some \<lparr> accessToken = ''tok'', refreshToken = None, userId = 7,
                     userName = ''dev'', expiresAt = None \<rparr> \<rparr>"

definition example_config :: ETTConfig where
  "example_config =
     \<lparr> config_apiUrl = ''https://ett.example'', config_accessToken = ''tok'',
       defaultBoardId = Some 1, defaultReporterId = None \<rparr>"

definition example_configured :: ETTService_cfg where
  "example_configured = \<lparr> localStorage = None, sent = [], config = Some example_config \<rparr>"

definition logged_out_service :: ETTService where
  "logged_out_service = \<lparr> localStorage = None, sent = [], apiUrl = [], auth = None \<rparr>"

definition unconfigured_service :: ETTService_cfg where
  "unconfigured_service = \<lparr> localStorage = None, sent = [], config = None \<rparr>"

definition remote_second_fails :: remote where
  "remote_second_fails history req =
     (if length history = 1 then Resolved \<lparr> http_status = 500, json_body = None \<rparr>
      else Resolved \<lparr> http_status = 201,
                      json_body = Some (JObj [(''success'', JBool True), (''data'', JStr (title (the (req_body (init req)))))]) \<rparr>)"

definition remote_401 :: remote where
  "remote_401 history req = Resolved \<lparr> http_status = 401, json_body = None \<rparr>"

section \<open>Properties of the remote client\<close>

lemmas example_defs =
  example_issue_def example_session_def example_config_def example_configured_def
  logged_out_service_def unconfigured_service_def remote_second_fails_def remote_401_def

lemmas service_defs =
  createIssues_def createIssue_def request_def getHeaders_def isAuthenticated_def data_of_def
  createIssues_cfg_def createIssue_cfg_def request_cfg_def getHeaders_cfg_def
  getBoards_def getTeamMembers_def getLabels_def getBoards_cfg_def getTeamMembers_cfg_def
  getLabels_cfg_def noInit_def ok_def error_of_response_def issue_request_def token_of_def
  token_of_cfg_def base_of_cfg_def logout_def Let_def

lemma createIssues_loop_abort:
  "createIssues_loop create xs acc st = (Inr rs, st1) \<Longrightarrow> create b st1 = (Inl e, st2)
   \<Longrightarrow> createIssues_loop create (xs @ b # ys) acc st = (Inl e, st2)"
proof (induction xs arbitrary: acc st)
  case Nil
  then show ?case by simp
next
  case (Cons x xs)
  then show ?case by (auto split: prod.splits sum.splits)
qed

lemma createIssues_loop_length:
  "createIssues_loop create xs acc st = (Inr rs, st1) \<Longrightarrow> length rs = length acc + length xs"
proof (induction xs arbitrary: acc st)
  case Nil
  then show ?case by simp
next
  case (Cons x xs)
  then show ?case by (fastforce split: prod.splits sum.splits)
qed

lemma request_ok:
  assumes "request net endpoint options this = (Inr j, this1)"
  shows "this1 = this\<lparr> sent := sent this @ [\<lparr> url = apiUrl this @ endpoint, init = options,
            headers = [(''Content-Type'', ''application/json''), (''Authorization'', ''Bearer '' @ token_of this)] \<rparr>] \<rparr>"
  using assms
  by (auto simp: request_def getHeaders_def isAuthenticated_def token_of_def Let_def
           split: if_splits option.splits sum.splits FetchResult.splits)

lemma request_fail:
  assumes "request net endpoint options this = (Inl e, this1)"
  shows "sent this1 = sent this \<or> sent this1 = sent this @ [\<lparr> url = apiUrl this @ endpoint, init = options,
            headers = [(''Content-Type'', ''application/json''), (''Authorization'', ''Bearer '' @ token_of this)] \<rparr>]"
  using assms
  by (auto simp: request_def getHeaders_def isAuthenticated_def token_of_def Let_def logout_def
           split: if_splits option.splits sum.splits FetchResult.splits)

lemma data_of_Inr:
  "data_of r = (Inr d, st) \<Longrightarrow> \<exists>j. r = (Inr j, st)"
  by (auto simp: data_of_def split: prod.splits sum.splits)

lemma data_of_Inl:
  "data_of r = (Inl e, st) \<Longrightarrow> \<exists>x. r = (x, st)"
  by (auto simp: data_of_def split: prod.splits sum.splits)

lemma createIssue_ok:
  assumes "createIssue net issue this = (Inr d, this1)"
  shows "this1 = this\<lparr> sent := sent this @ [issue_request (apiUrl this) (token_of this) issue] \<rparr>"
proof -
  from assms obtain j where
    "request net ''/issue-tracker/issues'' \<lparr> req_method = Some ''POST'', req_body = Some issue \<rparr> this = (Inr j, this1)"
    unfolding createIssue_def by (blast dest: data_of_Inr)
  from request_ok [OF this] show ?thesis by (simp add: issue_request_def)
qed

lemma createIssue_fail:
  assumes "createIssue net issue this = (Inl e, this1)"
  shows "sent this1 = sent this \<or> sent this1 = sent this @ [issue_request (apiUrl this) (token_of this) issue]"
proof -
  from assms obtain x where
    r: "request net ''/issue-tracker/issues'' \<lparr> req_method = Some ''POST'', req_body = Some issue \<rparr> this = (x, this1)"
    unfolding createIssue_def by (blast dest: data_of_Inl)
  show ?thesis
  proof (cases x)
    case (Inl a)
    with r request_fail show ?thesis by (fastforce simp: issue_request_def)
  next
    case (Inr b)
    with r have "request net ''/issue-tracker/issues'' \<lparr> req_method = Some ''POST'', req_body = Some issue \<rparr> this = (Inr b, this1)"
      by simp
    from request_ok [OF this] show ?thesis by (simp add: issue_request_def)
  qed
qed

lemma createIssues_loop_sent:
  "createIssues_loop (createIssue net) xs acc this = (Inr rs, this1)
   \<Longrightarrow> this1 = this\<lparr> sent := sent this @ map (issue_request (apiUrl this) (token_of this)) xs \<rparr>"
proof (induction xs arbitrary: acc this)
  case Nil
  then show ?case by simp
next
  case (Cons x xs)
  from Cons.prems obtain d st' where
    c: "createIssue net x this = (Inr d, st')" and
    l: "createIssues_loop (createIssue net) xs (acc @ [d]) st' = (Inr rs, this1)"
    by (auto split: prod.splits sum.splits)
  from createIssue_ok [OF c] have st': "st' = this\<lparr> sent := sent this @ [issue_request (apiUrl this) (token_of this) x] \<rparr>" .
  from Cons.IH [OF l] show ?case by (simp add: st' token_of_def)
qed

lemma request_cfg_ok:
  assumes "request_cfg net endpoint options this = (Inr j, this1)"
  shows "this1 = this\<lparr> sent := sent this @ [\<lparr> url = base_of_cfg this @ endpoint, init = options,
            headers = [(''Content-Type'', ''application/json''), (''Authorization'', ''Bearer '' @ token_of_cfg this)] \<rparr>] \<rparr>"
  using assms
  by (auto simp: request_cfg_def getHeaders_cfg_def token_of_cfg_def base_of_cfg_def Let_def
           split: if_splits option.splits sum.splits FetchResult.splits)

lemma request_cfg_fail:
  assumes "request_cfg net endpoint options this = (Inl e, this1)"
  shows "sent this1 = sent this \<or> sent this1 = sent this @ [\<lparr> url = base_of_cfg this @ endpoint, init = options,
            headers = [(''Content-Type'', ''application/json''), (''Authorization'', ''Bearer '' @ token_of_cfg this)] \<rparr>]"
  using assms
  by (auto simp: request_cfg_def getHeaders_cfg_def token_of_cfg_def base_of_cfg_def Let_def
           split: if_splits option.splits sum.splits FetchResult.splits)

lemma createIssue_cfg_ok:
  assumes "createIssue_cfg net issue this = (Inr d, this1)"
  shows "this1 = this\<lparr> sent := sent this @ [issue_request (base_of_cfg this) (token_of_cfg this) issue] \<rparr>"
proof -
  from assms obtain j where
    "request_cfg net ''/issue-tracker/issues'' \<lparr> req_method = Some ''POST'', req_body = Some issue \<rparr> this = (Inr j, this1)"
    unfolding createIssue_cfg_def by (blast dest: data_of_Inr)
  from request_cfg_ok [OF this] show ?thesis by (simp add: issue_request_def)
qed

lemma createIssue_cfg_fail:
  assumes "createIssue_cfg net issue this = (Inl e, this1)"
  shows "sent this1 = sent this \<or> sent this1 = sent this @ [issue_request (base_of_cfg this) (token_of_cfg this) issue]"
proof -
  from assms obtain x where
    r: "request_cfg net ''/issue-tracker/issues'' \<lparr> req_method = Some ''POST'', req_body = Some issue \<rparr> this = (x, this1)"
    unfolding createIssue_cfg_def by (blast dest: data_of_Inl)
  show ?thesis
  proof (cases x)
    case (Inl a)
    with r request_cfg_fail show ?thesis by (fastforce simp: issue_request_def)
  next
    case (Inr b)
    with r have "request_cfg net ''/issue-tracker/issues'' \<lparr> req_method = Some ''POST'', req_body = Some issue \<rparr> this = (Inr b, this1)"
      by simp
    from request_cfg_ok [OF this] show ?thesis by (simp add: issue_request_def)
  qed
qed

lemma createIssues_loop_cfg_sent:
  "createIssues_loop (createIssue_cfg net) xs acc this = (Inr rs, this1)
   \<Longrightarrow> this1 = this\<lparr> sent := sent this @ map (issue_request (base_of_cfg this) (token_of_cfg this)) xs \<rparr>"
proof (induction xs arbitrary: acc this)
  case Nil
  then show ?case by simp
next
  case (Cons x xs)
  from Cons.prems obtain d st' where
    c: "createIssue_cfg net x this = (Inr d, st')" and
    l: "createIssues_loop (createIssue_cfg net) xs (acc @ [d]) st' = (Inr rs, this1)"
    by (auto split: prod.splits sum.splits)
  from createIssue_cfg_ok [OF c]
  have st': "st' = this\<lparr> sent := sent this @ [issue_request (base_of_cfg this) (token_of_cfg this) x] \<rparr>" .
  from Cons.IH [OF l] show ?case by (simp add: st' token_of_cfg_def base_of_cfg_def)
qed

lemma request_unconfigured:
  "apiUrl this = [] \<or> \<not> isAuthenticated this \<Longrightarrow> rejected_unsent (request net endpoint options this) this"
  by (auto simp: request_def rejected_unsent_def configuration_error_def)

lemma request_cfg_unconfigured:
  "config that = None \<Longrightarrow> rejected_unsent (request_cfg net endpoint options that) that"
  by (simp add: request_cfg_def rejected_unsent_def configuration_error_def)

lemma data_of_rejected:
  "rejected_unsent r this \<Longrightarrow> rejected_unsent (data_of r) this"
  by (cases r) (auto simp: rejected_unsent_def data_of_def split: sum.splits)

lemma createIssues_loop_rejected:
  "rejected_unsent (create issue this) this
   \<Longrightarrow> rejected_unsent (createIssues_loop create (issue # issues) acc this) this"
  by (cases "create issue this") (auto simp: rejected_unsent_def split: sum.splits)

lemma got_401_same: "\<not> got_401 net log log"
  by (simp add: got_401_def)

lemma got_401_one:
  "got_401 net log (log @ [req]) \<longleftrightarrow>
     (case net log req of Resolved response \<Rightarrow> http_status response = 401 | Rejected msg \<Rightarrow> False)"
  by (simp add: got_401_def answered_401_def)

lemma answered_401_append:
  "i < length log \<Longrightarrow> answered_401 net (log @ ext) i = answered_401 net log i"
  by (simp add: answered_401_def nth_append)

lemma got_401_split:
  "got_401 net a ((a @ b) @ c) \<longleftrightarrow> got_401 net a (a @ b) \<or> got_401 net (a @ b) ((a @ b) @ c)"
proof -
  have r: "[length a ..< length ((a @ b) @ c)] = [length a ..< length (a @ b)] @ [length (a @ b) ..< length ((a @ b) @ c)]"
    by (simp add: upt_add_eq_append [symmetric] flip: add.assoc)
  have "list_ex (answered_401 net ((a @ b) @ c)) [length a ..< length (a @ b)]
        = list_ex (answered_401 net (a @ b)) [length a ..< length (a @ b)]"
    unfolding list_ex_iff using answered_401_append [of _ "a @ b" net c] by auto
  then show ?thesis
    unfolding got_401_def r by (simp only: list_ex_append)
qed

lemma request_401:
  assumes "got_401 net (sent this) (sent (snd (request net endpoint options this)))"
  shows "session_expired (request net endpoint options this)"
  using assms
  by (auto simp: request_def getHeaders_def isAuthenticated_def Let_def logout_def got_401_same
                 got_401_one session_expired_def session_cleared_def
           split: if_splits option.splits sum.splits FetchResult.splits)

lemma data_of_snd: "snd (data_of r) = snd r"
  by (cases r) (auto simp: data_of_def split: sum.splits)

lemma data_of_expired: "session_expired r \<Longrightarrow> session_expired (data_of r)"
  by (cases r) (auto simp: session_expired_def data_of_def split: sum.splits)

lemma createIssue_401:
  assumes "got_401 net (sent this) (sent (snd (createIssue net issue this)))"
  shows "session_expired (createIssue net issue this)"
  using assms unfolding createIssue_def data_of_snd
  by (rule data_of_expired [OF request_401])

lemma createIssues_loop_tail:
  "\<exists>tail. sent (snd (createIssues_loop (createIssue net) xs acc this)) = sent this @ tail"
proof (induction xs arbitrary: acc this)
  case Nil
  then show ?case by simp
next
  case (Cons x xs)
  obtain r st' where c: "createIssue net x this = (r, st')" by (cases "createIssue net x this")
  show ?case
  proof (cases r)
    case (Inl e)
    with c createIssue_fail [of net x this e st'] show ?thesis by auto
  next
    case (Inr d)
    with c createIssue_ok [of net x this d st'] have "sent st' = sent this @ [issue_request (apiUrl this) (token_of this) x]"
      by simp
    moreover from Cons.IH [of "acc @ [d]" st'] obtain tail where
      "sent (snd (createIssues_loop (createIssue net) xs (acc @ [d]) st')) = sent st' @ tail" by blast
    ultimately show ?thesis using c Inr by simp
  qed
qed

lemma createIssues_loop_401:
  "got_401 net (sent this) (sent (snd (createIssues_loop (createIssue net) xs acc this)))
   \<Longrightarrow> session_expired (createIssues_loop (createIssue net) xs acc this)"
proof (induction xs arbitrary: acc this)
  case Nil
  then show ?case by (simp add: got_401_same)
next
  case (Cons x xs)
  obtain r st' where c: "createIssue net x this = (r, st')" by (cases "createIssue net x this")
  show ?case
  proof (cases r)
    case (Inl e)
    with c Cons.prems have "got_401 net (sent this) (sent (snd (createIssue net x this)))" by simp
    from createIssue_401 [OF this] show ?thesis using c Inl by (simp add: session_expired_def)
  next
    case (Inr d)
    let ?q = "issue_request (apiUrl this) (token_of this) x"
    let ?rest = "createIssues_loop (createIssue net) xs (acc @ [d]) st'"
    from c Inr createIssue_ok [of net x this d st'] have s: "sent st' = sent this @ [?q]" by simp
    from createIssues_loop_tail [of net xs "acc @ [d]" st'] obtain tail where
      t: "sent (snd ?rest) = (sent this @ [?q]) @ tail" using s by auto
    have first: "\<not> got_401 net (sent this) (sent this @ [?q])"
    proof
      assume "got_401 net (sent this) (sent this @ [?q])"
      with s c have "got_401 net (sent this) (sent (snd (createIssue net x this)))" by simp
      from createIssue_401 [OF this] show False using c Inr by (simp add: session_expired_def)
    qed
    from Cons.prems c Inr have "got_401 net (sent this) (sent (snd ?rest))" by simp
    then have "got_401 net (sent this) ((sent this @ [?q]) @ tail)" using t by simp
    then have "got_401 net (sent this @ [?q]) ((sent this @ [?q]) @ tail)"
      using first got_401_split [of net "sent this" "[?q]" tail] by blast
    then have "got_401 net (sent st') (sent (snd ?rest))" using s t by simp
    from Cons.IH [OF this] show ?thesis using c Inr by simp
  qed
qed

text \<open>
  What the two services check before a request. In the login-based service, when the base URL is empty or no non-empty
  access token is stored, \<^verbatim>\<open>getBoards\<close>, \<^verbatim>\<open>getTeamMembers\<close>, \<^verbatim>\<open>getLabels\<close>,
  \<^verbatim>\<open>createIssue\<close> and \<^verbatim>\<open>createIssues\<close> on a non-empty list raise a configuration
  error and leave the state as it was: nothing is dispatched. In the configuration-based
  service the same holds when no configuration record is stored.
\<close>

theorem authorized_calls_fail_fast:
  "(apiUrl this = [] \<or> \<not> isAuthenticated this \<longrightarrow>
      rejected_unsent (getBoards net this) this \<and>
      rejected_unsent (getTeamMembers net this) this \<and>
      rejected_unsent (getLabels net boardId this) this \<and>
      rejected_unsent (createIssue net issue this) this \<and>
      rejected_unsent (createIssues net (issue # issues) this) this) \<and>
   (config that = None \<longrightarrow>
      rejected_unsent (getBoards_cfg net that) that \<and>
      rejected_unsent (getTeamMembers_cfg net that) that \<and>
      rejected_unsent (getLabels_cfg net boardId that) that \<and>
      rejected_unsent (createIssue_cfg net issue that) that \<and>
      rejected_unsent (createIssues_cfg net (issue # issues) that) that)"
proof (intro conjI impI)
  assume a: "apiUrl this = [] \<or> \<not> isAuthenticated this"
  show "rejected_unsent (getBoards net this) this"
    unfolding getBoards_def by (rule data_of_rejected [OF request_unconfigured [OF a]])
  show "rejected_unsent (getTeamMembers net this) this"
    unfolding getTeamMembers_def by (rule data_of_rejected [OF request_unconfigured [OF a]])
  show "rejected_unsent (getLabels net boardId this) this"
    unfolding getLabels_def by (rule data_of_rejected [OF request_unconfigured [OF a]])
  show c: "rejected_unsent (createIssue net issue this) this"
    unfolding createIssue_def by (rule data_of_rejected [OF request_unconfigured [OF a]])
  show "rejected_unsent (createIssues net (issue # issues) this) this"
    unfolding createIssues_def
    using c by (rule createIssues_loop_rejected [where create = "createIssue net"])
next
  assume a: "config that = None"
  show "rejected_unsent (getBoards_cfg net that) that"
    unfolding getBoards_cfg_def by (rule data_of_rejected [OF request_cfg_unconfigured [OF a]])
  show "rejected_unsent (getTeamMembers_cfg net that) that"
    unfolding getTeamMembers_cfg_def by (rule data_of_rejected [OF request_cfg_unconfigured [OF a]])
  show "rejected_unsent (getLabels_cfg net boardId that) that"
    unfolding getLabels_cfg_def by (rule data_of_rejected [OF request_cfg_unconfigured [OF a]])
  show c: "rejected_unsent (createIssue_cfg net issue that) that"
    unfolding createIssue_cfg_def by (rule data_of_rejected [OF request_cfg_unconfigured [OF a]])
  show "rejected_unsent (createIssues_cfg net (issue # issues) that) that"
    unfolding createIssues_cfg_def
    using c by (rule createIssues_loop_rejected [where create = "createIssue_cfg net"])
qed

text \<open>A service without base URL and session, and a service without configuration.\<close>

theorem authorized_calls_fail_fast_witness:
  "apiUrl logged_out_service = [] \<and>
   rejected_unsent (getBoards remote_401 logged_out_service) logged_out_service \<and>
   rejected_unsent (getTeamMembers remote_401 logged_out_service) logged_out_service \<and>
   rejected_unsent (getLabels remote_401 3 logged_out_service) logged_out_service \<and>
   rejected_unsent (createIssue remote_401 (example_issue ''a'') logged_out_service) logged_out_service \<and>
   rejected_unsent (createIssues remote_401 [example_issue ''a'', example_issue ''b''] logged_out_service) logged_out_service \<and>
   config unconfigured_service = None \<and>
   rejected_unsent (getBoards_cfg remote_401 unconfigured_service) unconfigured_service \<and>
   rejected_unsent (getTeamMembers_cfg remote_401 unconfigured_service) unconfigured_service \<and>
   rejected_unsent (getLabels_cfg remote_401 3 unconfigured_service) unconfigured_service \<and>
   rejected_unsent (createIssue_cfg remote_401 (example_issue ''a'') unconfigured_service) unconfigured_service \<and>
   rejected_unsent (createIssues_cfg remote_401 [example_issue ''a'', example_issue ''b''] unconfigured_service) unconfigured_service"
proof -
  have h1: "apiUrl logged_out_service = []" by (simp add: logged_out_service_def)
  have h2: "config unconfigured_service = None" by (simp add: unconfigured_service_def)
  from authorized_calls_fail_fast
    [of logged_out_service remote_401 3 "example_issue ''a''" "[example_issue ''b'']" unconfigured_service]
    h1 h2
  show ?thesis by simp
qed

section \<open>The claims about the remote client\<close>

text \<open>
  C2. \<^verbatim>\<open>createIssues\<close> submits the requests one at a time, in input order, in both
  services. When the requests \<open>xs\<close> have all been created and the call for the next request
  \<open>b\<close> fails with an error, the batch fails with that error, in the state that the failed
  call left. There is one result per created request, the log of dispatched requests holds
  the requests for \<open>xs\<close> in order, followed by at most the one for \<open>b\<close>, and it holds
  nothing for the requests after \<open>b\<close>: they are never attempted, and nothing that was
  sent is taken back.
\<close>

theorem createIssues_sequential_abort:
  "(createIssues net xs this = (Inr rs, this1) \<and> createIssue net b this1 = (Inl e, this2) \<longrightarrow>
      createIssues net (xs @ b # ys) this = (Inl e, this2) \<and>
      length rs = length xs \<and>
      sent this1 = sent this @ map (issue_request (apiUrl this) (token_of this)) xs \<and>
      (sent this2 = sent this1 \<or>
       sent this2 = sent this1 @ [issue_request (apiUrl this) (token_of this) b])) \<and>
   (createIssues_cfg net xs that = (Inr rs', that1) \<and> createIssue_cfg net b that1 = (Inl e', that2) \<longrightarrow>
      createIssues_cfg net (xs @ b # ys) that = (Inl e', that2) \<and>
      length rs' = length xs \<and>
      sent that1 = sent that @ map (issue_request (base_of_cfg that) (token_of_cfg that)) xs \<and>
      (sent that2 = sent that1 \<or>
       sent that2 = sent that1 @ [issue_request (base_of_cfg that) (token_of_cfg that) b]))"
proof (intro conjI impI)
  assume a: "createIssues net xs this = (Inr rs, this1) \<and> createIssue net b this1 = (Inl e, this2)"
  then have l: "createIssues_loop (createIssue net) xs [] this = (Inr rs, this1)"
    and f: "createIssue net b this1 = (Inl e, this2)"
    by (simp_all add: createIssues_def)
  show "createIssues net (xs @ b # ys) this = (Inl e, this2)"
    unfolding createIssues_def using createIssues_loop_abort [OF l f] .
  show "length rs = length xs"
    using createIssues_loop_length [OF l] by simp
  have s1: "this1 = this\<lparr> sent := sent this @ map (issue_request (apiUrl this) (token_of this)) xs \<rparr>"
    using createIssues_loop_sent [OF l] .
  then show "sent this1 = sent this @ map (issue_request (apiUrl this) (token_of this)) xs"
    by simp
  have "apiUrl this1 = apiUrl this" "token_of this1 = token_of this"
    using s1 by (simp_all add: token_of_def)
  with createIssue_fail [OF f]
  show "sent this2 = sent this1 \<or>
        sent this2 = sent this1 @ [issue_request (apiUrl this) (token_of this) b]"
    by simp
next
  assume a: "createIssues_cfg net xs that = (Inr rs', that1) \<and> createIssue_cfg net b that1 = (Inl e', that2)"
  then have l: "createIssues_loop (createIssue_cfg net) xs [] that = (Inr rs', that1)"
    and f: "createIssue_cfg net b that1 = (Inl e', that2)"
    by (simp_all add: createIssues_cfg_def)
  show "createIssues_cfg net (xs @ b # ys) that = (Inl e', that2)"
    unfolding createIssues_cfg_def using createIssues_loop_abort [OF l f] .
  show "length rs' = length xs"
    using createIssues_loop_length [OF l] by simp
  have s1: "that1 = that\<lparr> sent := sent that @ map (issue_request (base_of_cfg that) (token_of_cfg that)) xs \<rparr>"
    using createIssues_loop_cfg_sent [OF l] .
  then show "sent that1 = sent that @ map (issue_request (base_of_cfg that) (token_of_cfg that)) xs"
    by simp
  have "base_of_cfg that1 = base_of_cfg that" "token_of_cfg that1 = token_of_cfg that"
    using s1 by (simp_all add: token_of_cfg_def base_of_cfg_def)
  with createIssue_cfg_fail [OF f]
  show "sent that2 = sent that1 \<or>
        sent that2 = sent that1 @ [issue_request (base_of_cfg that) (token_of_cfg that) b]"
    by simp
qed

text \<open>Three requests against a remote side that rejects the second request it receives.\<close>

theorem createIssues_sequential_abort_witness:
  "createIssues remote_second_fails [example_issue ''a'', example_issue ''b'', example_issue ''c''] example_session =
     (Inl (Error ''Unknown error''),
      example_session\<lparr> sent := [issue_request ''https://ett.example'' ''tok'' (example_issue ''a''),
                                   issue_request ''https://ett.example'' ''tok'' (example_issue ''b'')] \<rparr>) \<and>
   createIssues_cfg remote_second_fails [example_issue ''a'', example_issue ''b'', example_issue ''c''] example_configured =
     (Inl (Error ''Unknown error''),
      example_configured\<lparr> sent := [issue_request ''https://ett.example'' ''tok'' (example_issue ''a''),
                                      issue_request ''https://ett.example'' ''tok'' (example_issue ''b'')] \<rparr>)"
proof -
  let ?a = "example_issue ''a''" and ?b = "example_issue ''b''" and ?c = "example_issue ''c''"
  let ?qa = "issue_request ''https://ett.example'' ''tok'' ?a"
  let ?qb = "issue_request ''https://ett.example'' ''tok'' ?b"
  have h1: "createIssues remote_second_fails [?a] example_session =
              (Inr [Some (JStr ''a'')], example_session\<lparr> sent := [?qa] \<rparr>)"
    by (simp add: service_defs example_defs)
  have h2: "createIssue remote_second_fails ?b (example_session\<lparr> sent := [?qa] \<rparr>) =
              (Inl (Error ''Unknown error''), example_session\<lparr> sent := [?qa, ?qb] \<rparr>)"
    by (simp add: service_defs example_defs)
  have h3: "createIssues_cfg remote_second_fails [?a] example_configured =
              (Inr [Some (JStr ''a'')], example_configured\<lparr> sent := [?qa] \<rparr>)"
    by (simp add: service_defs example_defs)
  have h4: "createIssue_cfg remote_second_fails ?b (example_configured\<lparr> sent := [?qa] \<rparr>) =
              (Inl (Error ''Unknown error''), example_configured\<lparr> sent := [?qa, ?qb] \<rparr>)"
    by (simp add: service_defs example_defs)
  from createIssues_sequential_abort
    [of remote_second_fails "[?a]" example_session "[Some (JStr ''a'')]" "example_session\<lparr> sent := [?qa] \<rparr>"
        ?b "Error ''Unknown error''" "example_session\<lparr> sent := [?qa, ?qb] \<rparr>" "[?c]"
        example_configured "[Some (JStr ''a'')]" "example_configured\<lparr> sent := [?qa] \<rparr>"
        "Error ''Unknown error''" "example_configured\<lparr> sent := [?qa, ?qb] \<rparr>"]
    h1 h2 h3 h4
  show ?thesis by simp
qed

text \<open>
  C3. A missing base URL is a configuration error raised before any request: the
  configuration-based service does not do that. After
  \<^verbatim>\<open>configure({apiUrl: "", accessToken: "x"})\<close> its \<^verbatim>\<open>isConfigured\<close> is false, but
  \<^verbatim>\<open>request\<close> tests only that a configuration record is there: \<^verbatim>\<open>getBoards\<close> dispatches
  a request to the relative URL \<^verbatim>\<open>/issue-tracker/boards\<close> with the header
  \<^verbatim>\<open>Authorization: Bearer x\<close> and raises the error of the response. The login-based
  service with the same empty base URL and a token raises the configuration error and
  dispatches nothing.
\<close>

theorem config_request_skips_checks:
  "isConfigured
     (configure (\<lambda>c. ''{}'')
        \<lparr> config_apiUrl = [], config_accessToken = ''x'', defaultBoardId = None, defaultReporterId = None \<rparr>
        unconfigured_service) = False \<and>
   getBoards_cfg remote_401
     (configure (\<lambda>c. ''{}'')
        \<lparr> config_apiUrl = [], config_accessToken = ''x'', defaultBoardId = None, defaultReporterId = None \<rparr>
        unconfigured_service) =
     (Inl (Error ''Unknown error''),
      \<lparr> localStorage = None,
        sent = [\<lparr> url = ''/issue-tracker/boards'', init = \<lparr> req_method = None, req_body = None \<rparr>,
                  headers = [(''Content-Type'', ''application/json''), (''Authorization'', ''Bearer x'')] \<rparr>],
        config = Some \<lparr> config_apiUrl = [], config_accessToken = ''x'', defaultBoardId = None,
                         defaultReporterId = None \<rparr> \<rparr>) \<and>
   getBoards remote_401 (example_session\<lparr> apiUrl := [] \<rparr>) =
     (Inl (Error ''API URL not configured. Check .env file.''), example_session\<lparr> apiUrl := [] \<rparr>)"
  by (simp add: service_defs example_defs configure_def isConfigured_def)

text \<open>
  C4. In the login-based service, when a request dispatched during an authorized call is
  answered with status 401, the call raises the session-expired error and leaves the session
  cleared: the in-memory record is null, \<^verbatim>\<open>isAuthenticated\<close> is false and the local
  storage, where there is one, has no record under the key of the session.
\<close>

theorem unauthorized_response_clears_session:
  "(got_401 net (sent this) (sent (snd (getBoards net this))) \<longrightarrow> session_expired (getBoards net this)) \<and>
   (got_401 net (sent this) (sent (snd (getTeamMembers net this))) \<longrightarrow> session_expired (getTeamMembers net this)) \<and>
   (got_401 net (sent this) (sent (snd (getLabels net boardId this))) \<longrightarrow> session_expired (getLabels net boardId this)) \<and>
   (got_401 net (sent this) (sent (snd (createIssue net issue this))) \<longrightarrow> session_expired (createIssue net issue this)) \<and>
   (got_401 net (sent this) (sent (snd (createIssues net issues this))) \<longrightarrow> session_expired (createIssues net issues this))"
proof (intro conjI impI)
  show "session_expired (getBoards net this)"
    if "got_401 net (sent this) (sent (snd (getBoards net this)))"
    using that unfolding getBoards_def data_of_snd by (rule data_of_expired [OF request_401])
  show "session_expired (getTeamMembers net this)"
    if "got_401 net (sent this) (sent (snd (getTeamMembers net this)))"
    using that unfolding getTeamMembers_def data_of_snd by (rule data_of_expired [OF request_401])
  show "session_expired (getLabels net boardId this)"
    if "got_401 net (sent this) (sent (snd (getLabels net boardId this)))"
    using that unfolding getLabels_def data_of_snd by (rule data_of_expired [OF request_401])
  show "session_expired (createIssue net issue this)"
    if "got_401 net (sent this) (sent (snd (createIssue net issue this)))"
    using that by (rule createIssue_401)
  show "session_expired (createIssues net issues this)"
    if "got_401 net (sent this) (sent (snd (createIssues net issues this)))"
    using that unfolding createIssues_def by (rule createIssues_loop_401)
qed

text \<open>A logged-in service against a remote side that answers every request with 401.\<close>

theorem unauthorized_response_clears_session_witness:
  "got_401 remote_401 (sent example_session) (sent (snd (getBoards remote_401 example_session))) \<and>
   session_expired (getBoards remote_401 example_session) \<and>
   got_401 remote_401 (sent example_session) (sent (snd (getTeamMembers remote_401 example_session))) \<and>
   session_expired (getTeamMembers remote_401 example_session) \<and>
   got_401 remote_401 (sent example_session) (sent (snd (getLabels remote_401 3 example_session))) \<and>
   session_expired (getLabels remote_401 3 example_session) \<and>
   got_401 remote_401 (sent example_session) (sent (snd (createIssue remote_401 (example_issue ''a'') example_session))) \<and>
   session_expired (createIssue remote_401 (example_issue ''a'') example_session) \<and>
   got_401 remote_401 (sent example_session)
     (sent (snd (createIssues remote_401 [example_issue ''a'', example_issue ''b''] example_session))) \<and>
   session_expired (createIssues remote_401 [example_issue ''a'', example_issue ''b''] example_session) \<and>
   \<not> isAuthenticated (snd (getBoards remote_401 example_session)) \<and>
   localStorage (snd (getBoards remote_401 example_session)) = Some Map.empty"
proof -
  have h1: "got_401 remote_401 (sent example_session) (sent (snd (getBoards remote_401 example_session)))"
    by (simp add: service_defs example_defs got_401_def answered_401_def)
  have h2: "got_401 remote_401 (sent example_session) (sent (snd (getTeamMembers remote_401 example_session)))"
    by (simp add: service_defs example_defs got_401_def answered_401_def)
  have h3: "got_401 remote_401 (sent example_session) (sent (snd (getLabels remote_401 3 example_session)))"
    by (simp add: service_defs example_defs got_401_def answered_401_def)
  have h4: "got_401 remote_401 (sent example_session) (sent (snd (createIssue remote_401 (example_issue ''a'') example_session)))"
    by (simp add: service_defs example_defs got_401_def answered_401_def)
  have h5: "got_401 remote_401 (sent example_session)
     (sent (snd (createIssues remote_401 [example_issue ''a'', example_issue ''b''] example_session)))"
    by (simp add: service_defs example_defs got_401_def answered_401_def)
  have h6: "\<not> isAuthenticated (snd (getBoards remote_401 example_session)) \<and>
   localStorage (snd (getBoards remote_401 example_session)) = Some Map.empty"
    by (simp add: service_defs example_defs)
  from unauthorized_response_clears_session
    [of remote_401 example_session 3 "example_issue ''a''" "[example_issue ''a'', example_issue ''b'']"]
    h1 h2 h3 h4 h5 h6
  show ?thesis by simp
qed

text \<open>
  C7. The redacted views do not depend on the value of a non-empty access token:
  \<^verbatim>\<open>getAuthState\<close> and \<^verbatim>\<open>getConfig\<close> return the same view for two records that
  differ only in it, and they report its presence as a boolean.
\<close>

theorem redacted_views_hide_token:
  assumes "t1 \<noteq> []" and "t2 \<noteq> []"
  shows "getAuthState (this\<lparr> auth := Some (a\<lparr> accessToken := t1 \<rparr>) \<rparr>) =
         getAuthState (this\<lparr> auth := Some (a\<lparr> accessToken := t2 \<rparr>) \<rparr>) \<and>
         getConfig (that\<lparr> config := Some (c\<lparr> config_accessToken := t1 \<rparr>) \<rparr>) =
         getConfig (that\<lparr> config := Some (c\<lparr> config_accessToken := t2 \<rparr>) \<rparr>) \<and>
         map_option view_hasToken (getConfig (that\<lparr> config := Some (c\<lparr> config_accessToken := t1 \<rparr>) \<rparr>)) = Some True \<and>
         view_isAuthenticated (getAuthState (this\<lparr> auth := Some (a\<lparr> accessToken := t1 \<rparr>) \<rparr>))"
  using assms by (simp add: getAuthState_def getConfig_def isAuthenticated_def)

text \<open>Two different tokens in the same session record and in the same configuration.\<close>

theorem redacted_views_hide_token_witness:
  "getAuthState (example_session\<lparr> auth := Some (\<lparr> accessToken = ''tok'', refreshToken = None, userId = 7,
                     userName = ''dev'', expiresAt = None \<rparr>\<lparr> accessToken := ''secret-1'' \<rparr>) \<rparr>) =
   getAuthState (example_session\<lparr> auth := Some (\<lparr> accessToken = ''tok'', refreshToken = None, userId = 7,
                     userName = ''dev'', expiresAt = None \<rparr>\<lparr> accessToken := ''secret-2'' \<rparr>) \<rparr>) \<and>
   getConfig (example_configured\<lparr> config := Some (example_config\<lparr> config_accessToken := ''secret-1'' \<rparr>) \<rparr>) =
   getConfig (example_configured\<lparr> config := Some (example_config\<lparr> config_accessToken := ''secret-2'' \<rparr>) \<rparr>)"
proof -
  have h1: "''secret-1'' \<noteq> []" by simp
  have h2: "''secret-2'' \<noteq> []" by simp
  from redacted_views_hide_token
    [OF h1 h2, where this = example_session and that = example_configured and c = example_config
       and a = "\<lparr> accessToken = ''tok'', refreshToken = None, userId = 7, userName = ''dev'', expiresAt = None \<rparr>"]
  show ?thesis by simp
qed

text \<open>
  C8 (as amended). \<^verbatim>\<open>isAuthenticated\<close> is true exactly when a session record exists
  and carries a non-empty access token, whatever the base URL is; \<^verbatim>\<open>isConfigured\<close> is
  true exactly when a configuration record exists and carries a non-empty base URL and a
  non-empty access token.
\<close>

theorem presence_checks:
  "(isAuthenticated this \<longleftrightarrow> (\<exists>a. auth this = Some a \<and> accessToken a \<noteq> [])) \<and>
   (isConfigured that \<longleftrightarrow>
      (\<exists>c. config that = Some c \<and> config_apiUrl c \<noteq> [] \<and> config_accessToken c \<noteq> []))"
  by (auto simp: isAuthenticated_def isConfigured_def split: option.splits)

text \<open>A logged-in and a configured service; a logged-out and an unconfigured one.\<close>

theorem presence_checks_witness:
  "isAuthenticated example_session \<and> isConfigured example_configured \<and>
   \<not> isAuthenticated logged_out_service \<and> \<not> isConfigured unconfigured_service"
  using presence_checks [of example_session example_configured]
        presence_checks [of logged_out_service unconfigured_service]
  by (simp add: example_defs)

text \<open>
  The claim as stated fails for \<^verbatim>\<open>isAuthenticated\<close>: with a stored token and an
  empty base URL it is true.
\<close>

theorem presence_checks_counterexample:
  "isAuthenticated (example_session\<lparr> apiUrl := [] \<rparr>) \<and> \<not> hasApiUrl (example_session\<lparr> apiUrl := [] \<rparr>)"
  by (simp add: isAuthenticated_def hasApiUrl_def example_session_def)

text \<open>
  C9. On the empty list \<^verbatim>\<open>createIssues\<close> returns the empty list and leaves the state
  as it was, in both services and in every state: no check is made, nothing is dispatched.
\<close>

theorem createIssues_empty_list:
  "createIssues net [] this = (Inr [], this) \<and> createIssues_cfg net [] that = (Inr [], that)"
  by (simp add: createIssues_def createIssues_cfg_def)

text \<open>The services without any configuration.\<close>

theorem createIssues_empty_list_witness:
  "createIssues remote_401 [] logged_out_service = (Inr [], logged_out_service) \<and>
   createIssues_cfg remote_401 [] unconfigured_service = (Inr [], unconfigured_service) \<and>
   sent logged_out_service = [] \<and> \<not> isAuthenticated logged_out_service \<and> \<not> hasApiUrl logged_out_service \<and>
   \<not> isConfigured unconfigured_service"
  using createIssues_empty_list [of remote_401 logged_out_service unconfigured_service]
  by (simp add: example_defs isAuthenticated_def hasApiUrl_def isConfigured_def)

end
